theory Spec2Isabelle
  imports Main "HOL-Library.Word"
begin

section \<open>Machine types, status codes and the runtime\<close>

text \<open>
  The kernels of \<^verbatim>\<open>stereoDNN/lib/kernels.cu\<close> compute with \<^verbatim>\<open>int32_t\<close>, \<^verbatim>\<open>uint32_t\<close> and
  \<^verbatim>\<open>size_t\<close>. A 32-bit value is a \<open>32 word\<close> whatever its signedness: the signedness is in
  the operation (\<open>\<le>\<close>, \<open><\<close>, \<open>div\<close>, \<open>mod\<close>, \<open>ucast\<close> are unsigned; \<open><s\<close>, \<open>scast\<close> are signed).
  \<^verbatim>\<open>size_t\<close> is 64 bits wide.
\<close>

type_synonym int32_t = "32 word"
type_synonym uint32_t = "32 word"
type_synonym size_t = "64 word"

text \<open>\<^verbatim>\<open>cudaError_t\<close>: success, or one of the failure codes of the CUDA runtime.\<close>

datatype cudaError_t = cudaSuccess | cudaErrorCode nat

text \<open>
  A host-side \<^verbatim>\<open>assert\<close> that fails, or an integer division by zero, ends the process:
  the operation does not return a status.
\<close>

datatype fault = AssertionFailed | DivisionByZero

text \<open>
  \<^verbatim>\<open>dim3\<close>: three unsigned extents. \<^verbatim>\<open>nvinfer1::Dims\<close>: the rank \<^verbatim>\<open>nbDims\<close> and the array
  \<^verbatim>\<open>d\<close> of eight extents (\<open>dims_d\<close> here); its array \<^verbatim>\<open>type\<close> is never read by this file
  and is left out.
\<close>

datatype dim3 = Dim3 (dim_x: uint32_t) (dim_y: uint32_t) (dim_z: uint32_t)

record Dims =
  nbDims :: int32_t
  dims_d :: "int32_t list"

text \<open>
  What the program cannot decide by itself is a parameter:
  \<^item> \<open>ndebug\<close>: whether \<^verbatim>\<open>NDEBUG\<close> is defined, which removes every \<^verbatim>\<open>assert\<close> and the
    body of \<^verbatim>\<open>SYNC_AND_CHECK_STREAM\<close>;
  \<^item> \<open>lastError n g b\<close>: what \<^verbatim>\<open>cudaGetLastError\<close> answers right after the launch
    number \<open>n\<close> (counted from 0 on the stream), made with grid \<open>g\<close> and block \<open>b\<close>;
  \<^item> \<open>streamSynchronize n\<close>: what \<^verbatim>\<open>cudaStreamSynchronize\<close> answers after that launch.
\<close>

record runtime =
  ndebug :: bool
  lastError :: "nat \<Rightarrow> dim3 \<Rightarrow> dim3 \<Rightarrow> cudaError_t"
  streamSynchronize :: "nat \<Rightarrow> cudaError_t"

definition kMaxGridSizeY :: int32_t where
  "kMaxGridSizeY = 65535"

definition kMaxGridSizeZ :: int32_t where
  "kMaxGridSizeZ = 65535"

section \<open>Block count\<close>

text \<open>
  \<^verbatim>\<open>getBlockCount\<close>: the sum and the quotient are \<^verbatim>\<open>uint32_t\<close>, so the sum wraps at \<open>2 ^ 32\<close>;
  the product of the second assertion is taken in \<^verbatim>\<open>size_t\<close>.
\<close>

definition getBlockCount :: "runtime \<Rightarrow> uint32_t \<Rightarrow> uint32_t \<Rightarrow> fault + uint32_t" where
  "getBlockCount rt total_size block_size =
     (if block_size = 0 then Inl DivisionByZero
      else
        let res = (total_size + block_size - 1) div block_size in
        if \<not> ndebug rt \<and> \<not> 0 < res then Inl AssertionFailed
        else if \<not> ndebug rt \<and> \<not> (ucast total_size :: size_t) \<le> ucast res * ucast block_size
          then Inl AssertionFailed
        else Inr res)"

text \<open>Two runtimes on which every launch and every synchronisation succeeds.\<close>

definition release_ok :: runtime where
  "release_ok = \<lparr>ndebug = True, lastError = (\<lambda>n g b. cudaSuccess),
     streamSynchronize = (\<lambda>n. cudaSuccess)\<rparr>"

definition debug_ok :: runtime where
  "debug_ok = \<lparr>ndebug = False, lastError = (\<lambda>n g b. cudaSuccess),
     streamSynchronize = (\<lambda>n. cudaSuccess)\<rparr>"

section \<open>Launching a kernel\<close>

text \<open>
  A device buffer is a map from element offsets to values; the two source buffers of an
  operation are read only and are distinct from its destination. The state of a call is its
  destination buffer, the names of the kernels launched so far and the status that
  \<^verbatim>\<open>cudaGetLastError\<close> has to report.
\<close>

record 'a stream_state =
  buf :: "nat \<Rightarrow> 'a"
  launched :: "string list"
  last_error :: cudaError_t

text \<open>
  The blocks of a grid and the threads of a block: every index from 0 below the extent, in
  each of the three directions. The threads of a launch are run one after the other.
\<close>

definition dim3_range :: "dim3 \<Rightarrow> dim3 list" where
  "dim3_range g =
     map (\<lambda>(k, j, i). Dim3 (of_nat i) (of_nat j) (of_nat k))
       (List.product [0..<unat (dim_z g)]
         (List.product [0..<unat (dim_y g)] [0..<unat (dim_x g)]))"

definition grid_threads :: "dim3 \<Rightarrow> dim3 \<Rightarrow> (dim3 \<times> dim3) list" where
  "grid_threads g b = List.product (dim3_range g) (dim3_range b)"

definition run_threads ::
  "(dim3 \<Rightarrow> dim3 \<Rightarrow> dim3 \<Rightarrow> (nat \<Rightarrow> 'a) \<Rightarrow> (nat \<Rightarrow> 'a)) \<Rightarrow> dim3 \<Rightarrow> (dim3 \<times> dim3) list
     \<Rightarrow> (nat \<Rightarrow> 'a) \<Rightarrow> (nat \<Rightarrow> 'a)" where
  "run_threads kern b ts dst = fold (\<lambda>(blockIdx, threadIdx). kern blockIdx b threadIdx) ts dst"

text \<open>
  The coordinates \<open>(ix, iy, iz)\<close> that each kernel computes on entry, read as numbers.
\<close>

definition thread_xyz :: "dim3 \<Rightarrow> dim3 \<times> dim3 \<Rightarrow> nat \<times> nat \<times> nat" where
  "thread_xyz blockDim t =
     (case t of (blockIdx, threadIdx) \<Rightarrow>
        (unat (dim_x blockIdx * dim_x blockDim + dim_x threadIdx),
         unat (dim_y blockIdx * dim_y blockDim + dim_y threadIdx),
         unat (dim_z blockIdx * dim_z blockDim + dim_z threadIdx)))"

text \<open>
  \<^verbatim>\<open>kernel<<<g, b, 0, stream>>>(...)\<close>: the launch is recorded; the kernel runs on every
  thread of the grid unless the runtime refuses the launch.
\<close>

definition launch ::
  "runtime \<Rightarrow> string \<Rightarrow> (dim3 \<Rightarrow> dim3 \<Rightarrow> dim3 \<Rightarrow> (nat \<Rightarrow> 'a) \<Rightarrow> (nat \<Rightarrow> 'a)) \<Rightarrow> dim3 \<Rightarrow> dim3
     \<Rightarrow> 'a stream_state \<Rightarrow> 'a stream_state" where
  "launch rt name kern g b st =
     (let status = lastError rt (length (launched st)) g b in
      \<lparr>buf = (if status = cudaSuccess then run_threads kern b (grid_threads g b) (buf st)
              else buf st),
       launched = launched st @ [name],
       last_error = status\<rparr>)"

text \<open>
  \<^verbatim>\<open>CHECKK\<close>: the status with which the calling operation returns at once, or
  \<open>cudaSuccess\<close> when it goes on.
\<close>

definition CHECKK :: "runtime \<Rightarrow> 'a stream_state \<Rightarrow> cudaError_t" where
  "CHECKK rt st =
     (let status = last_error st in
      if status \<noteq> cudaSuccess then status
      else if ndebug rt then cudaSuccess
      else streamSynchronize rt (length (launched st) - 1))"

section \<open>Cost volume\<close>

text \<open>A loop counter below its signed bound can be incremented without overflow.\<close>

lemma sint_succ_less:
  fixes a b :: int32_t
  assumes "a <s b"
  shows "sint (a + 1) = sint a + 1"
proof -
  have "sint a < sint b" using assms by (simp add: word_sless_alt)
  moreover have "sint b < 2 ^ 31" using sint_lt [of b] by simp
  moreover have "- (2 ^ 31) \<le> sint a" using sint_ge [of a] by simp
  ultimately have "signed_take_bit 31 (sint a + 1) = sint a + 1"
    by (intro signed_take_bit_int_eq_self) auto
  then show ?thesis by (simp add: sint_word_add)
qed

text \<open>
  The loop of \<^verbatim>\<open>costVolumeCopyKernel\<close>; \<open>pdst\<close> is the offset of the pointer from \<^verbatim>\<open>dst\<close>, in
  elements.
\<close>

function copy_loop ::
  "'a \<Rightarrow> size_t \<Rightarrow> int32_t \<Rightarrow> int32_t \<Rightarrow> size_t \<Rightarrow> (nat \<Rightarrow> 'a) \<Rightarrow> (nat \<Rightarrow> 'a)" where
  "copy_loop val stride disp idst pdst dst =
     (if idst <s disp
      then copy_loop val stride disp (idst + 1) (pdst + stride) (dst(unat pdst := val))
      else dst)"
  by pat_completeness auto

termination
  by (relation "measure (\<lambda>(val, stride, disp, idst, pdst, dst). nat (sint disp - sint idst))")
    (auto simp: sint_succ_less word_sless_alt)

text \<open>
  \<^verbatim>\<open>ix >= w\<close> compares a \<^verbatim>\<open>uint32_t\<close> with an \<^verbatim>\<open>int32_t\<close>, so it is unsigned; the sum for
  \<open>isrc\<close> is a \<^verbatim>\<open>uint32_t\<close> that is widened afterwards; \<^verbatim>\<open>2 * c * h * w\<close> is an \<^verbatim>\<open>int\<close> that
  is sign-extended to \<^verbatim>\<open>size_t\<close>.
\<close>

definition costVolumeCopyKernel ::
  "(nat \<Rightarrow> 'a) \<Rightarrow> int32_t \<Rightarrow> int32_t \<Rightarrow> int32_t \<Rightarrow> int32_t \<Rightarrow> dim3 \<Rightarrow> dim3 \<Rightarrow> dim3
     \<Rightarrow> (nat \<Rightarrow> 'a) \<Rightarrow> (nat \<Rightarrow> 'a)" where
  "costVolumeCopyKernel src c h w disp blockIdx blockDim threadIdx dst =
     (let ix = dim_x blockIdx * dim_x blockDim + dim_x threadIdx;
          iy = dim_y blockIdx * dim_y blockDim + dim_y threadIdx;
          iz = dim_z blockIdx * dim_z blockDim + dim_z threadIdx
      in if w \<le> ix \<or> h \<le> iy \<or> c \<le> iz then dst
         else
           let isrc = (ucast (iz * h * w + iy * w + ix) :: size_t);
               stride = (scast (2 * c * h * w) :: size_t);
               val = src (unat isrc)
           in copy_loop val stride disp 0 isrc dst)"

text \<open>
  The loop of \<^verbatim>\<open>costVolumeCopyPadKernel\<close>. \<^verbatim>\<open>ix < pad\<close> is unsigned; in \<^verbatim>\<open>isrc - pad\<close> the
  \<^verbatim>\<open>int32_t\<close> is sign-extended to \<^verbatim>\<open>size_t\<close>.
\<close>

function pad_loop ::
  "(nat \<Rightarrow> 'a::zero) \<Rightarrow> uint32_t \<Rightarrow> size_t \<Rightarrow> size_t \<Rightarrow> int32_t \<Rightarrow> int32_t \<Rightarrow> size_t
     \<Rightarrow> (nat \<Rightarrow> 'a) \<Rightarrow> (nat \<Rightarrow> 'a)" where
  "pad_loop src ix isrc stride disp pad pdst dst =
     (if pad <s disp
      then pad_loop src ix isrc stride disp (pad + 1) (pdst + stride)
             (dst(unat pdst := (if ix < pad then 0 else src (unat (isrc - scast pad)))))
      else dst)"
  by pat_completeness auto

termination
  by (relation "measure (\<lambda>(src, ix, isrc, stride, disp, pad, pdst, dst). nat (sint disp - sint pad))")
    (auto simp: sint_succ_less word_sless_alt)

definition costVolumeCopyPadKernel ::
  "(nat \<Rightarrow> 'a::zero) \<Rightarrow> int32_t \<Rightarrow> int32_t \<Rightarrow> int32_t \<Rightarrow> int32_t \<Rightarrow> dim3 \<Rightarrow> dim3 \<Rightarrow> dim3
     \<Rightarrow> (nat \<Rightarrow> 'a) \<Rightarrow> (nat \<Rightarrow> 'a)" where
  "costVolumeCopyPadKernel src c h w disp blockIdx blockDim threadIdx dst =
     (let ix = dim_x blockIdx * dim_x blockDim + dim_x threadIdx;
          iy = dim_y blockIdx * dim_y blockDim + dim_y threadIdx;
          iz = dim_z blockIdx * dim_z blockDim + dim_z threadIdx
      in if w \<le> ix \<or> h \<le> iy \<or> c \<le> iz then dst
         else
           let isrc = (ucast (iz * h * w + iy * w + ix) :: size_t);
               stride = (scast (c * h * w) :: size_t);
               idst = isrc + stride;
               stride = stride * 2
           in pad_loop src ix isrc stride disp 0 idst dst)"

text \<open>
  \<^verbatim>\<open>computeCostVolume\<close>: the two assertions on the ranks, the grid from \<^verbatim>\<open>getBlockCount\<close>,
  then the two launches, each followed by \<^verbatim>\<open>CHECKK\<close>. The cost volume is the buffer of
  the state. The single-pass \<^verbatim>\<open>costVolumeKernel\<close> of the source is launched nowhere and has
  no counterpart here.
\<close>

definition computeCostVolume ::
  "runtime \<Rightarrow> (nat \<Rightarrow> 'a::zero) \<Rightarrow> (nat \<Rightarrow> 'a) \<Rightarrow> Dims \<Rightarrow> Dims \<Rightarrow> 'a stream_state
     \<Rightarrow> (fault + cudaError_t) \<times> 'a stream_state" where
  "computeCostVolume rt left right in_dims out_dims st =
     (if \<not> ndebug rt \<and> nbDims in_dims \<noteq> 3 then (Inl AssertionFailed, st)
      else if \<not> ndebug rt \<and> nbDims out_dims \<noteq> 4 then (Inl AssertionFailed, st)
      else
        case getBlockCount rt (dims_d in_dims ! 2) 16 of Inl f \<Rightarrow> (Inl f, st) | Inr gx \<Rightarrow>
        case getBlockCount rt (dims_d in_dims ! 1) 16 of Inl f \<Rightarrow> (Inl f, st) | Inr gy \<Rightarrow>
        case getBlockCount rt (dims_d in_dims ! 0) 1 of Inl f \<Rightarrow> (Inl f, st) | Inr gz \<Rightarrow>
        let b_dim = Dim3 16 16 1;
            g_dim = Dim3 gx gy gz;
            st1 = launch rt ''costVolumeCopyKernel''
                    (costVolumeCopyKernel left (dims_d in_dims ! 0) (dims_d in_dims ! 1)
                       (dims_d in_dims ! 2) (dims_d out_dims ! 0)) g_dim b_dim st;
            status1 = CHECKK rt st1
        in if status1 \<noteq> cudaSuccess then (Inr status1, st1)
           else
             let st2 = launch rt ''costVolumeCopyPadKernel''
                         (costVolumeCopyPadKernel right (dims_d in_dims ! 0) (dims_d in_dims ! 1)
                            (dims_d in_dims ! 2) (dims_d out_dims ! 0)) g_dim b_dim st1;
                 status2 = CHECKK rt st2
             in if status2 \<noteq> cudaSuccess then (Inr status2, st2)
                else (Inr cudaSuccess, st2))"

section \<open>Bias of a 3D convolution\<close>

text \<open>
  \<^verbatim>\<open>addDBiasTo3DConvKernel\<close>: \<^verbatim>\<open>iz >= d * c\<close> and \<^verbatim>\<open>iz % d\<close> are unsigned, the product
  \<^verbatim>\<open>d * c\<close> is an \<^verbatim>\<open>int\<close>; the sum for \<open>idst\<close> is a \<^verbatim>\<open>uint32_t\<close> that is widened afterwards.
  \<open>cur_d\<close> is read as an unsigned index into \<open>bias\<close>, which is what the \<^verbatim>\<open>int32_t\<close> of the
  source holds whenever \<open>d\<close> is positive.
\<close>

definition addDBiasTo3DConvKernel ::
  "(nat \<Rightarrow> 'a::plus) \<Rightarrow> int32_t \<Rightarrow> int32_t \<Rightarrow> int32_t \<Rightarrow> int32_t \<Rightarrow> dim3 \<Rightarrow> dim3 \<Rightarrow> dim3
     \<Rightarrow> (nat \<Rightarrow> 'a) \<Rightarrow> (nat \<Rightarrow> 'a)" where
  "addDBiasTo3DConvKernel bias c d h w blockIdx blockDim threadIdx conv =
     (let ix = dim_x blockIdx * dim_x blockDim + dim_x threadIdx;
          iy = dim_y blockIdx * dim_y blockDim + dim_y threadIdx;
          iz = dim_z blockIdx * dim_z blockDim + dim_z threadIdx
      in if w \<le> ix \<or> h \<le> iy \<or> d * c \<le> iz then conv
         else
           let cur_d = iz mod d;
               idst = (ucast (iz * h * w + iy * w + ix) :: size_t)
           in conv(unat idst := conv (unat idst) + bias (unat cur_d)))"

text \<open>
  \<^verbatim>\<open>addDBiasTo3DConv\<close>: four assertions on the descriptors, the grid, two assertions on
  the grid, one launch. The convolution output is the buffer of the state.
\<close>

definition addDBiasTo3DConv ::
  "runtime \<Rightarrow> (nat \<Rightarrow> 'a::plus) \<Rightarrow> Dims \<Rightarrow> Dims \<Rightarrow> 'a stream_state
     \<Rightarrow> (fault + cudaError_t) \<times> 'a stream_state" where
  "addDBiasTo3DConv rt bias bias_dims conv_dims st =
     (if \<not> ndebug rt \<and> nbDims bias_dims \<noteq> 5 then (Inl AssertionFailed, st)
      else if \<not> ndebug rt \<and> nbDims conv_dims \<noteq> 4 then (Inl AssertionFailed, st)
      else if \<not> ndebug rt \<and> dims_d bias_dims ! 0 \<noteq> 1 then (Inl AssertionFailed, st)
      else if \<not> ndebug rt \<and> dims_d bias_dims ! 2 \<noteq> dims_d conv_dims ! 1
        then (Inl AssertionFailed, st)
      else
        case getBlockCount rt (dims_d conv_dims ! 3) 16 of Inl f \<Rightarrow> (Inl f, st) | Inr gx \<Rightarrow>
        case getBlockCount rt (dims_d conv_dims ! 2) 16 of Inl f \<Rightarrow> (Inl f, st) | Inr gy \<Rightarrow>
        case getBlockCount rt (dims_d conv_dims ! 0 * dims_d conv_dims ! 1) 1 of
          Inl f \<Rightarrow> (Inl f, st)
        | Inr gz \<Rightarrow>
        let b_dim = Dim3 16 16 1;
            g_dim = Dim3 gx gy gz
        in if \<not> ndebug rt \<and> \<not> dim_y g_dim \<le> kMaxGridSizeY then (Inl AssertionFailed, st)
           else if \<not> ndebug rt \<and> \<not> dim_z g_dim \<le> kMaxGridSizeZ then (Inl AssertionFailed, st)
           else
             let st1 = launch rt ''addDBiasTo3DConvKernel''
                         (addDBiasTo3DConvKernel bias (dims_d conv_dims ! 0) (dims_d conv_dims ! 1)
                            (dims_d conv_dims ! 2) (dims_d conv_dims ! 3)) g_dim b_dim st;
                 status = CHECKK rt st1
             in if status \<noteq> cudaSuccess then (Inr status, st1)
                else (Inr cudaSuccess, st1))"

section \<open>Precision conversion\<close>

text \<open>
  The conversions of a value between \<^verbatim>\<open>float\<close> and \<^verbatim>\<open>__half\<close> are operations of the device
  and are parameters here: \<open>float2half\<close> gives the 16-bit pattern of the rounded value,
  \<open>half2float\<close> the value of a 16-bit pattern. The thread index \<open>tid\<close> is a \<^verbatim>\<open>uint32_t\<close>
  expression that is widened to \<^verbatim>\<open>size_t\<close>; in the host functions the \<^verbatim>\<open>size_t\<close> count \<open>sz\<close> is
  narrowed to the \<^verbatim>\<open>uint32_t\<close> parameter of \<^verbatim>\<open>getBlockCount\<close>. A \<^verbatim>\<open>dim3\<close> has the extent 1
  where none is given.
\<close>

definition fp32Tofp16Kernel ::
  "('f \<Rightarrow> 'h) \<Rightarrow> (nat \<Rightarrow> 'f) \<Rightarrow> size_t \<Rightarrow> dim3 \<Rightarrow> dim3 \<Rightarrow> dim3 \<Rightarrow> (nat \<Rightarrow> 'h) \<Rightarrow> (nat \<Rightarrow> 'h)" where
  "fp32Tofp16Kernel float2half src sz blockIdx blockDim threadIdx dst =
     (let tid = (ucast (dim_x blockIdx * dim_x blockDim + dim_x threadIdx) :: size_t)
      in if sz \<le> tid then dst
         else dst(unat tid := float2half (src (unat tid))))"

definition fp32Tofp16 ::
  "runtime \<Rightarrow> ('f \<Rightarrow> 'h) \<Rightarrow> (nat \<Rightarrow> 'f) \<Rightarrow> size_t \<Rightarrow> 'h stream_state
     \<Rightarrow> (fault + cudaError_t) \<times> 'h stream_state" where
  "fp32Tofp16 rt float2half src sz st =
     (case getBlockCount rt (ucast sz) 256 of Inl f \<Rightarrow> (Inl f, st) | Inr gx \<Rightarrow>
      let b_dim = Dim3 256 1 1;
          g_dim = Dim3 gx 1 1;
          st1 = launch rt ''fp32Tofp16Kernel'' (fp32Tofp16Kernel float2half src sz) g_dim b_dim st;
          status = CHECKK rt st1
      in if status \<noteq> cudaSuccess then (Inr status, st1)
         else (Inr cudaSuccess, st1))"

definition fp16Tofp32Kernel ::
  "('h \<Rightarrow> 'f) \<Rightarrow> (nat \<Rightarrow> 'h) \<Rightarrow> size_t \<Rightarrow> dim3 \<Rightarrow> dim3 \<Rightarrow> dim3 \<Rightarrow> (nat \<Rightarrow> 'f) \<Rightarrow> (nat \<Rightarrow> 'f)" where
  "fp16Tofp32Kernel half2float src sz blockIdx blockDim threadIdx dst =
     (let tid = (ucast (dim_x blockIdx * dim_x blockDim + dim_x threadIdx) :: size_t)
      in if sz \<le> tid then dst
         else dst(unat tid := half2float (src (unat tid))))"

definition fp16Tofp32 ::
  "runtime \<Rightarrow> ('h \<Rightarrow> 'f) \<Rightarrow> (nat \<Rightarrow> 'h) \<Rightarrow> size_t \<Rightarrow> 'f stream_state
     \<Rightarrow> (fault + cudaError_t) \<times> 'f stream_state" where
  "fp16Tofp32 rt half2float src sz st =
     (case getBlockCount rt (ucast sz) 256 of Inl f \<Rightarrow> (Inl f, st) | Inr gx \<Rightarrow>
      let b_dim = Dim3 256 1 1;
          g_dim = Dim3 gx 1 1;
          st1 = launch rt ''fp16Tofp32Kernel'' (fp16Tofp32Kernel half2float src sz) g_dim b_dim st;
          status = CHECKK rt st1
      in if status \<noteq> cudaSuccess then (Inr status, st1)
         else (Inr cudaSuccess, st1))"

section \<open>Sample runtimes and inputs\<close>

text \<open>
  \<open>refusing nd k\<close> refuses the launch number \<open>k\<close>; \<open>grid_limited nd\<close> refuses every launch
  whose grid is more than 65535 blocks high or deep; \<open>idle\<close> is a stream on which nothing has
  been launched; \<open>dims_of r xs\<close> is the descriptor of rank \<open>r\<close> whose eight extents start
  with \<open>xs\<close>; \<open>ones\<close> and \<open>twos\<close> are constant buffers and \<open>incr\<close> stands for a conversion.
\<close>

definition refusing :: "bool \<Rightarrow> nat \<Rightarrow> runtime" where
  "refusing nd k = \<lparr>ndebug = nd,
     lastError = (\<lambda>n g b. if n = k then cudaErrorCode 9 else cudaSuccess),
     streamSynchronize = (\<lambda>n. cudaSuccess)\<rparr>"

definition grid_limited :: "bool \<Rightarrow> runtime" where
  "grid_limited nd = \<lparr>ndebug = nd,
     lastError = (\<lambda>n g b. if 65535 < dim_y g \<or> 65535 < dim_z g then cudaErrorCode 9 else cudaSuccess),
     streamSynchronize = (\<lambda>n. cudaSuccess)\<rparr>"

definition idle :: "int stream_state" where
  "idle = \<lparr>buf = (\<lambda>i. 0), launched = [], last_error = cudaSuccess\<rparr>"

definition ones :: "nat \<Rightarrow> int" where
  "ones i = 1"

definition twos :: "nat \<Rightarrow> int" where
  "twos i = 2"

definition incr :: "int \<Rightarrow> int" where
  "incr v = v + 1"

definition dims_of :: "nat \<Rightarrow> int32_t list \<Rightarrow> Dims" where
  "dims_of r xs = \<lparr>nbDims = of_nat r, dims_d = xs @ replicate (8 - length xs) 0\<rparr>"

section \<open>Properties of the block count\<close>

lemma getBlockCount_res:
  fixes total_size block_size :: uint32_t
  assumes "0 < unat block_size" and "unat total_size + unat block_size - 1 < 2 ^ 32"
  shows "unat ((total_size + block_size - 1) div block_size)
       = (unat total_size + unat block_size - 1) div unat block_size"
proof -
  have nz: "block_size \<noteq> 0"
    using assms(1) by (auto simp: unat_eq_0)
  have m: "unat (block_size - 1) = unat block_size - 1"
    using nz by (simp add: unat_minus_one)
  have e: "total_size + block_size - 1 = total_size + (block_size - 1)"
    by simp
  have "unat (total_size + (block_size - 1)) = unat total_size + unat (block_size - 1)"
    using assms m by (subst unat_add_lem [THEN iffD1]) auto
  then have "unat (total_size + block_size - 1) = unat total_size + (unat block_size - 1)"
    by (simp only: e m)
  then have "unat (total_size + block_size - 1) = unat total_size + unat block_size - 1"
    using assms(1) by (simp only: Nat.add_diff_assoc Suc_leI One_nat_def)
  then show ?thesis by (simp add: unat_div)
qed

lemma unat_ucast_32_64: "unat (ucast (w :: 32 word) :: 64 word) = unat w"
proof -
  have "unat w < 2 ^ 32" using unsigned_less [of w] by simp
  then have "unat w < 2 ^ 64" by simp
  then show ?thesis by (simp add: unsigned_ucast_eq take_bit_nat_eq_self)
qed

lemma getBlockCount_asserts:
  fixes total_size block_size :: uint32_t
  assumes "0 < unat total_size" and "0 < unat block_size"
    and "unat total_size + unat block_size - 1 < 2 ^ 32"
  shows "getBlockCount rt total_size block_size = Inr ((total_size + block_size - 1) div block_size)"
proof -
  let ?res = "(total_size + block_size - 1) div block_size"
  let ?n = "(unat total_size + unat block_size - 1) div unat block_size"
  have r: "unat ?res = ?n"
    using assms by (rule_tac getBlockCount_res) auto
  have pos: "0 < ?n"
    using assms by (simp add: div_greater_zero_iff)
  have ge: "unat total_size \<le> ?n * unat block_size"
  proof -
    have "unat total_size + unat block_size - 1 < (?n + 1) * unat block_size"
      using assms(2) dividend_less_times_div [of "unat block_size" "unat total_size + unat block_size - 1"]
      by (simp add: algebra_simps)
    then show ?thesis using assms by (simp add: algebra_simps)
  qed
  have nz: "block_size \<noteq> 0" using assms(2) by (auto simp: unat_eq_0)
  have "0 < ?res" using pos r by (simp add: word_less_nat_alt)
  moreover have "(ucast total_size :: size_t) \<le> ucast ?res * ucast block_size"
  proof -
    have b: "unat ?res * unat block_size < 2 ^ 64"
    proof -
      have "unat ?res < 2 ^ 32" "unat block_size < 2 ^ 32"
        using unsigned_less [of ?res] unsigned_less [of block_size] by simp_all
      then have "unat ?res * unat block_size < 2 ^ 32 * 2 ^ 32"
        by (intro mult_strict_mono) auto
      then show ?thesis by simp
    qed
    have "unat (ucast ?res * ucast block_size :: size_t) = unat ?res * unat block_size"
      using b by (simp add: unat_word_ariths unat_ucast_32_64)
    then show ?thesis using ge r by (simp add: word_le_nat_alt unat_ucast_32_64)
  qed
  ultimately show ?thesis using nz by (simp add: getBlockCount_def Let_def)
qed

text \<open>
  Claim C4, as amended. For \<open>total > 0\<close> and \<open>blockSize > 0\<close> whose sum
  \<open>total + blockSize - 1\<close> fits 32 bits, \<^verbatim>\<open>getBlockCount\<close> passes its assertions and returns
  the ceiling of \<open>total / blockSize\<close>: the least \<open>res\<close> with \<open>res * blockSize \<ge> total\<close>, which
  is at least 1. The three values of the specification hold in every build.
\<close>

theorem getBlockCount_ceil:
  fixes total_size block_size :: uint32_t
  assumes "0 < unat total_size" and "0 < unat block_size"
    and "unat total_size + unat block_size - 1 < 2 ^ 32"
  shows "\<exists>res. getBlockCount rt total_size block_size = Inr res
           \<and> unat res = (unat total_size + unat block_size - 1) div unat block_size
           \<and> (unat res - 1) * unat block_size < unat total_size
           \<and> unat total_size \<le> unat res * unat block_size
           \<and> 1 \<le> unat res
           \<and> getBlockCount rt 10 16 = Inr 1
           \<and> getBlockCount rt 32 16 = Inr 2
           \<and> getBlockCount rt 17 16 = Inr 2"
proof -
  have c: "getBlockCount rt 10 16 = Inr 1 \<and> getBlockCount rt 32 16 = Inr 2
             \<and> getBlockCount rt 17 16 = Inr 2"
    by (simp add: getBlockCount_def)
  let ?res = "(total_size + block_size - 1) div block_size"
  let ?n = "(unat total_size + unat block_size - 1) div unat block_size"
  have g: "getBlockCount rt total_size block_size = Inr ?res"
    using assms by (rule getBlockCount_asserts)
  have r: "unat ?res = ?n"
    using assms by (rule_tac getBlockCount_res) auto
  have pos: "1 \<le> ?n"
    using assms by (simp add: div_greater_zero_iff Suc_le_eq)
  have ge: "unat total_size \<le> ?n * unat block_size"
  proof -
    have "unat total_size + unat block_size - 1 < (?n + 1) * unat block_size"
      using assms(2) dividend_less_times_div [of "unat block_size" "unat total_size + unat block_size - 1"]
      by (simp add: algebra_simps)
    then show ?thesis using assms by (simp add: algebra_simps)
  qed
  have lt: "(?n - 1) * unat block_size < unat total_size"
  proof -
    have "?n * unat block_size \<le> unat total_size + unat block_size - 1"
      by simp
    then have "?n * unat block_size < unat total_size + unat block_size"
      using assms by linarith
    moreover have "(?n - 1) * unat block_size = ?n * unat block_size - unat block_size"
      by (simp add: diff_mult_distrib)
    ultimately show ?thesis using assms(1) by linarith
  qed
  show ?thesis using g r pos ge lt c by simp
qed

theorem getBlockCount_ceil_witness:
  "\<exists>res. getBlockCount debug_ok 17 16 = Inr res
     \<and> unat res = (unat (17 :: uint32_t) + unat (16 :: uint32_t) - 1) div unat (16 :: uint32_t)
     \<and> (unat res - 1) * unat (16 :: uint32_t) < unat (17 :: uint32_t)
     \<and> unat (17 :: uint32_t) \<le> unat res * unat (16 :: uint32_t)
     \<and> 1 \<le> unat res
     \<and> getBlockCount debug_ok 10 16 = Inr 1
     \<and> getBlockCount debug_ok 32 16 = Inr 2
     \<and> getBlockCount debug_ok 17 16 = Inr 2"
  using getBlockCount_ceil [of 17 16 debug_ok] by simp

text \<open>
  Claim C4 as it is written fails where the 32-bit sum wraps: for \<open>total = 2 ^ 32 - 1\<close> and
  \<open>blockSize = 2\<close> the ceiling is \<open>2 ^ 31\<close>, but the sum is 0, so a release build returns 0
  and a debug build stops at the first assertion.
\<close>

theorem getBlockCount_wraps:
  "getBlockCount release_ok 4294967295 2 = Inr 0
     \<and> getBlockCount debug_ok 4294967295 2 = Inl AssertionFailed"
  by (simp add: getBlockCount_def release_ok_def debug_ok_def)

section \<open>The bias descriptor\<close>

text \<open>
  Claim C10. \<^verbatim>\<open>addDBiasTo3DConv\<close> reads of its bias descriptor only the rank and the extents
  0 and 2, and those only in its assertions: two descriptors that agree on them give the same
  status and the same state, whatever their other extents.
\<close>

theorem addDBiasTo3DConv_bias_dims:
  assumes "nbDims bd1 = nbDims bd2" and "dims_d bd1 ! 0 = dims_d bd2 ! 0"
    and "dims_d bd1 ! 2 = dims_d bd2 ! 2"
  shows "addDBiasTo3DConv rt bias bd1 conv_dims st = addDBiasTo3DConv rt bias bd2 conv_dims st"
  using assms by (simp add: addDBiasTo3DConv_def)

theorem addDBiasTo3DConv_bias_dims_witness:
  "addDBiasTo3DConv debug_ok (\<lambda>i. 1) (dims_of 5 [1, 1, 2, 1, 1]) (dims_of 4 [1, 2, 1, 1]) idle
     = addDBiasTo3DConv debug_ok (\<lambda>i. 1) (dims_of 5 [1, 7, 2, 9, 3]) (dims_of 4 [1, 2, 1, 1]) idle"
  using addDBiasTo3DConv_bias_dims [of "dims_of 5 [1, 1, 2, 1, 1]" "dims_of 5 [1, 7, 2, 9, 3]"]
  by (simp add: dims_of_def)

section \<open>Status checks after a launch\<close>

lemma CHECKK_launch_failed:
  assumes "lastError rt (length (launched st)) g b = e" and "e \<noteq> cudaSuccess"
  shows "launch rt name kern g b st = \<lparr>buf = buf st, launched = launched st @ [name], last_error = e\<rparr>"
    and "CHECKK rt (launch rt name kern g b st) = e"
  using assms by (simp_all add: launch_def CHECKK_def)

text \<open>
  Claim C5. In each of the four operations, once the assertions before a launch have passed
  and the grid is computed, a launch after which \<^verbatim>\<open>cudaGetLastError\<close> reports a status
  \<open>e\<close> other than success makes the operation return \<open>e\<close>; the kernel of that launch is the
  last one launched and it has written nothing. In \<^verbatim>\<open>computeCostVolume\<close>, when the first
  launch is refused, \<^verbatim>\<open>costVolumeCopyPadKernel\<close> is never launched; when the second is
  refused, the buffer is as the first kernel left it.
\<close>

theorem CHECKK_returns_launch_error:
  "(getBlockCount rt (dims_d in_dims ! 2) 16 = Inr gx
      \<and> getBlockCount rt (dims_d in_dims ! 1) 16 = Inr gy
      \<and> getBlockCount rt (dims_d in_dims ! 0) 1 = Inr gz
      \<and> (ndebug rt \<or> nbDims in_dims = 3 \<and> nbDims out_dims = 4)
      \<and> lastError rt (length (launched st)) (Dim3 gx gy gz) (Dim3 16 16 1) = e
      \<and> e \<noteq> cudaSuccess
    \<longrightarrow> computeCostVolume rt left right in_dims out_dims st
          = (Inr e, \<lparr>buf = buf st, launched = launched st @ [''costVolumeCopyKernel''],
                     last_error = e\<rparr>))
   \<and> (getBlockCount rt2 (dims_d in_dims ! 2) 16 = Inr gx2
      \<and> getBlockCount rt2 (dims_d in_dims ! 1) 16 = Inr gy2
      \<and> getBlockCount rt2 (dims_d in_dims ! 0) 1 = Inr gz2
      \<and> (ndebug rt2 \<or> nbDims in_dims = 3 \<and> nbDims out_dims = 4)
      \<and> lastError rt2 (length (launched st)) (Dim3 gx2 gy2 gz2) (Dim3 16 16 1) = cudaSuccess
      \<and> (ndebug rt2 \<or> streamSynchronize rt2 (length (launched st)) = cudaSuccess)
      \<and> lastError rt2 (Suc (length (launched st))) (Dim3 gx2 gy2 gz2) (Dim3 16 16 1) = e2
      \<and> e2 \<noteq> cudaSuccess
    \<longrightarrow> computeCostVolume rt2 left right in_dims out_dims st
          = (Inr e2,
             \<lparr>buf = run_threads
                      (costVolumeCopyKernel left (dims_d in_dims ! 0) (dims_d in_dims ! 1)
                         (dims_d in_dims ! 2) (dims_d out_dims ! 0))
                      (Dim3 16 16 1) (grid_threads (Dim3 gx2 gy2 gz2) (Dim3 16 16 1)) (buf st),
               launched = launched st @ [''costVolumeCopyKernel'', ''costVolumeCopyPadKernel''],
               last_error = e2\<rparr>))
   \<and> (getBlockCount rt (dims_d conv_dims ! 3) 16 = Inr cx
      \<and> getBlockCount rt (dims_d conv_dims ! 2) 16 = Inr cy
      \<and> getBlockCount rt (dims_d conv_dims ! 0 * dims_d conv_dims ! 1) 1 = Inr cz
      \<and> (ndebug rt \<or> nbDims bias_dims = 5 \<and> nbDims conv_dims = 4 \<and> dims_d bias_dims ! 0 = 1
            \<and> dims_d bias_dims ! 2 = dims_d conv_dims ! 1
            \<and> cy \<le> kMaxGridSizeY \<and> cz \<le> kMaxGridSizeZ)
      \<and> lastError rt (length (launched st)) (Dim3 cx cy cz) (Dim3 16 16 1) = e
      \<and> e \<noteq> cudaSuccess
    \<longrightarrow> addDBiasTo3DConv rt bias bias_dims conv_dims st
          = (Inr e, \<lparr>buf = buf st, launched = launched st @ [''addDBiasTo3DConvKernel''],
                     last_error = e\<rparr>))
   \<and> (getBlockCount rt (ucast sz) 256 = Inr fx
      \<and> lastError rt (length (launched sth)) (Dim3 fx 1 1) (Dim3 256 1 1) = e
      \<and> e \<noteq> cudaSuccess
    \<longrightarrow> fp32Tofp16 rt float2half srcf sz sth
          = (Inr e, \<lparr>buf = buf sth, launched = launched sth @ [''fp32Tofp16Kernel''],
                     last_error = e\<rparr>))
   \<and> (getBlockCount rt (ucast sz) 256 = Inr fx
      \<and> lastError rt (length (launched st)) (Dim3 fx 1 1) (Dim3 256 1 1) = e
      \<and> e \<noteq> cudaSuccess
    \<longrightarrow> fp16Tofp32 rt half2float srch sz st
          = (Inr e, \<lparr>buf = buf st, launched = launched st @ [''fp16Tofp32Kernel''],
                     last_error = e\<rparr>))"
  by (auto simp: computeCostVolume_def addDBiasTo3DConv_def fp32Tofp16_def fp16Tofp32_def
      launch_def CHECKK_def Let_def)

theorem CHECKK_returns_launch_error_witness:
  "computeCostVolume (refusing False 0) (\<lambda>i. 1) (\<lambda>i. 2) (dims_of 3 [1, 1, 4]) (dims_of 4 [2, 2, 1, 4]) idle
     = (Inr (cudaErrorCode 9),
        \<lparr>buf = buf idle, launched = launched idle @ [''costVolumeCopyKernel''],
          last_error = cudaErrorCode 9\<rparr>)
   \<and> computeCostVolume (refusing False 1) (\<lambda>i. 1) (\<lambda>i. 2) (dims_of 3 [1, 1, 4]) (dims_of 4 [2, 2, 1, 4]) idle
     = (Inr (cudaErrorCode 9),
        \<lparr>buf = run_threads
                 (costVolumeCopyKernel (\<lambda>i. 1) (dims_d (dims_of 3 [1, 1, 4]) ! 0)
                    (dims_d (dims_of 3 [1, 1, 4]) ! 1) (dims_d (dims_of 3 [1, 1, 4]) ! 2)
                    (dims_d (dims_of 4 [2, 2, 1, 4]) ! 0))
                 (Dim3 16 16 1) (grid_threads (Dim3 1 1 1) (Dim3 16 16 1)) (buf idle),
          launched = launched idle @ [''costVolumeCopyKernel'', ''costVolumeCopyPadKernel''],
          last_error = cudaErrorCode 9\<rparr>)
   \<and> addDBiasTo3DConv (refusing False 0) (\<lambda>i. 1) (dims_of 5 [1, 1, 2, 1, 1]) (dims_of 4 [1, 2, 1, 1]) idle
     = (Inr (cudaErrorCode 9),
        \<lparr>buf = buf idle, launched = launched idle @ [''addDBiasTo3DConvKernel''],
          last_error = cudaErrorCode 9\<rparr>)
   \<and> fp32Tofp16 (refusing False 0) (\<lambda>v. v + 1) (\<lambda>i. 1 :: int) 5 idle
     = (Inr (cudaErrorCode 9),
        \<lparr>buf = buf idle, launched = launched idle @ [''fp32Tofp16Kernel''],
          last_error = cudaErrorCode 9\<rparr>)
   \<and> fp16Tofp32 (refusing False 0) (\<lambda>v. v + 1) (\<lambda>i. 1 :: int) 5 idle
     = (Inr (cudaErrorCode 9),
        \<lparr>buf = buf idle, launched = launched idle @ [''fp16Tofp32Kernel''],
          last_error = cudaErrorCode 9\<rparr>)"
proof -
  have g: "getBlockCount (refusing False 0) 4 16 = Inr 1" "getBlockCount (refusing False 0) 1 16 = Inr 1"
    "getBlockCount (refusing False 0) 1 1 = Inr 1"
    "getBlockCount (refusing False 1) 4 16 = Inr 1" "getBlockCount (refusing False 1) 1 16 = Inr 1"
    "getBlockCount (refusing False 1) 1 1 = Inr 1" "getBlockCount (refusing False 0) 5 256 = Inr 1"
    "getBlockCount (refusing False 0) 2 1 = Inr 2"
    by (simp_all add: getBlockCount_def refusing_def)
  show ?thesis
    using CHECKK_returns_launch_error [where rt = "refusing False 0"
        and in_dims = "dims_of 3 [1, 1, 4]" and gx = 1 and gy = 1 and gz = 1
        and out_dims = "dims_of 4 [2, 2, 1, 4]" and st = idle and e = "cudaErrorCode 9"
        and left = "\<lambda>i. 1" and right = "\<lambda>i. 2" and ?rt2.0 = "refusing False 1"
        and ?gx2.0 = 1 and ?gy2.0 = 1 and ?gz2.0 = 1 and ?e2.0 = "cudaErrorCode 9"
        and conv_dims = "dims_of 4 [1, 2, 1, 1]" and cx = 1 and cy = 1 and cz = 2
        and bias_dims = "dims_of 5 [1, 1, 2, 1, 1]" and bias = "\<lambda>i. 1"
        and sz = 5 and fx = 1 and sth = idle and ?float2half.0 = "\<lambda>v. v + 1"
        and srcf = "\<lambda>i. 1" and ?half2float.0 = "\<lambda>v. v + 1" and srch = "\<lambda>i. 1"] g
    by (simp add: dims_of_def refusing_def idle_def kMaxGridSizeY_def kMaxGridSizeZ_def)
qed

section \<open>Grids beyond the extent limit\<close>

text \<open>
  Claim C6, as amended. On a runtime that refuses every launch whose grid is more than
  \<open>kMaxGridSizeY\<close> blocks high or \<open>kMaxGridSizeZ\<close> blocks deep: when the grid computed by
  \<^verbatim>\<open>addDBiasTo3DConv\<close> exceeds one of the limits, a release build returns the status of the
  refused launch and a debug build stops at an assertion; when the grid computed by
  \<^verbatim>\<open>computeCostVolume\<close> does, the operation returns the status of the refused first launch.
  In each case the buffer is unchanged.
\<close>

theorem grid_extent_exceeded:
  assumes limit: "\<And>n g b. kMaxGridSizeY < dim_y g \<or> kMaxGridSizeZ < dim_z g
                     \<Longrightarrow> lastError rt n g b \<noteq> cudaSuccess"
  shows "(getBlockCount rt (dims_d conv_dims ! 3) 16 = Inr cx
      \<and> getBlockCount rt (dims_d conv_dims ! 2) 16 = Inr cy
      \<and> getBlockCount rt (dims_d conv_dims ! 0 * dims_d conv_dims ! 1) 1 = Inr cz
      \<and> (kMaxGridSizeY < cy \<or> kMaxGridSizeZ < cz)
    \<longrightarrow> (if ndebug rt
         then \<exists>e. e \<noteq> cudaSuccess
                \<and> addDBiasTo3DConv rt bias bias_dims conv_dims st
                  = (Inr e, \<lparr>buf = buf st, launched = launched st @ [''addDBiasTo3DConvKernel''],
                             last_error = e\<rparr>)
         else addDBiasTo3DConv rt bias bias_dims conv_dims st = (Inl AssertionFailed, st)))
   \<and> (getBlockCount rt (dims_d in_dims ! 2) 16 = Inr gx
      \<and> getBlockCount rt (dims_d in_dims ! 1) 16 = Inr gy
      \<and> getBlockCount rt (dims_d in_dims ! 0) 1 = Inr gz
      \<and> (ndebug rt \<or> nbDims in_dims = 3 \<and> nbDims out_dims = 4)
      \<and> (kMaxGridSizeY < gy \<or> kMaxGridSizeZ < gz)
    \<longrightarrow> (\<exists>e. e \<noteq> cudaSuccess
           \<and> computeCostVolume rt left right in_dims out_dims st
             = (Inr e, \<lparr>buf = buf st, launched = launched st @ [''costVolumeCopyKernel''],
                        last_error = e\<rparr>)))"
proof (intro conjI impI)
  assume h: "getBlockCount rt (dims_d conv_dims ! 3) 16 = Inr cx
      \<and> getBlockCount rt (dims_d conv_dims ! 2) 16 = Inr cy
      \<and> getBlockCount rt (dims_d conv_dims ! 0 * dims_d conv_dims ! 1) 1 = Inr cz
      \<and> (kMaxGridSizeY < cy \<or> kMaxGridSizeZ < cz)"
  then have "lastError rt (length (launched st)) (Dim3 cx cy cz) (Dim3 16 16 1) \<noteq> cudaSuccess"
    by (intro limit) simp
  with h show "if ndebug rt
         then \<exists>e. e \<noteq> cudaSuccess
                \<and> addDBiasTo3DConv rt bias bias_dims conv_dims st
                  = (Inr e, \<lparr>buf = buf st, launched = launched st @ [''addDBiasTo3DConvKernel''],
                             last_error = e\<rparr>)
         else addDBiasTo3DConv rt bias bias_dims conv_dims st = (Inl AssertionFailed, st)"
    by (auto simp: addDBiasTo3DConv_def launch_def CHECKK_def Let_def not_le)
next
  assume h: "getBlockCount rt (dims_d in_dims ! 2) 16 = Inr gx
      \<and> getBlockCount rt (dims_d in_dims ! 1) 16 = Inr gy
      \<and> getBlockCount rt (dims_d in_dims ! 0) 1 = Inr gz
      \<and> (ndebug rt \<or> nbDims in_dims = 3 \<and> nbDims out_dims = 4)
      \<and> (kMaxGridSizeY < gy \<or> kMaxGridSizeZ < gz)"
  then have "lastError rt (length (launched st)) (Dim3 gx gy gz) (Dim3 16 16 1) \<noteq> cudaSuccess"
    by (intro limit) simp
  with h show "\<exists>e. e \<noteq> cudaSuccess
           \<and> computeCostVolume rt left right in_dims out_dims st
             = (Inr e, \<lparr>buf = buf st, launched = launched st @ [''costVolumeCopyKernel''],
                        last_error = e\<rparr>)"
    by (auto simp: computeCostVolume_def launch_def CHECKK_def Let_def)
qed

theorem grid_extent_exceeded_witness:
  "(\<exists>e. e \<noteq> cudaSuccess
       \<and> addDBiasTo3DConv (grid_limited True) (\<lambda>i. 1) (dims_of 5 [1, 1, 1, 1, 1])
           (dims_of 4 [1, 1, 1048561, 1]) idle
         = (Inr e, \<lparr>buf = buf idle, launched = launched idle @ [''addDBiasTo3DConvKernel''],
                    last_error = e\<rparr>))
   \<and> (\<exists>e. e \<noteq> cudaSuccess
       \<and> computeCostVolume (grid_limited True) (\<lambda>i. 1) (\<lambda>i. 2) (dims_of 3 [1, 1048561, 1])
           (dims_of 4 [2, 2, 1048561, 1]) idle
         = (Inr e, \<lparr>buf = buf idle, launched = launched idle @ [''costVolumeCopyKernel''],
                    last_error = e\<rparr>))"
proof -
  have l: "\<And>n g b. kMaxGridSizeY < dim_y g \<or> kMaxGridSizeZ < dim_z g
             \<Longrightarrow> lastError (grid_limited True) n g b \<noteq> cudaSuccess"
    by (simp add: grid_limited_def kMaxGridSizeY_def kMaxGridSizeZ_def)
  have g: "getBlockCount (grid_limited True) 1 16 = Inr 1"
    "getBlockCount (grid_limited True) 1048561 16 = Inr 65536"
    "getBlockCount (grid_limited True) 1 1 = Inr 1"
    by (simp_all add: getBlockCount_def grid_limited_def)
  show ?thesis
    using grid_extent_exceeded [OF l, where conv_dims = "dims_of 4 [1, 1, 1048561, 1]"
        and cx = 1 and cy = 65536 and cz = 1 and in_dims = "dims_of 3 [1, 1048561, 1]"
        and gx = 1 and gy = 65536 and gz = 1 and out_dims = "dims_of 4 [2, 2, 1048561, 1]"
        and bias = "\<lambda>i. 1" and bias_dims = "dims_of 5 [1, 1, 1, 1, 1]" and st = idle
        and left = "\<lambda>i. 1" and right = "\<lambda>i. 2"] g
    by (simp add: dims_of_def grid_limited_def kMaxGridSizeY_def kMaxGridSizeZ_def)
qed

text \<open>
  Claim C6 as it is written asks for a returned status. In a debug build a grid that is
  65536 blocks high (\<open>H = 16 * 65535 + 1\<close>) stops \<^verbatim>\<open>addDBiasTo3DConv\<close> at
  \<^verbatim>\<open>assert(g_dim.y <= kMaxGridSizeY)\<close>: no status is returned.
\<close>

theorem addDBiasTo3DConv_aborts_on_tall_grid:
  "addDBiasTo3DConv (grid_limited False) ones (dims_of 5 [1, 1, 1, 1, 1])
     (dims_of 4 [1, 1, 1048561, 1]) idle = (Inl AssertionFailed, idle)"
  by (simp add: addDBiasTo3DConv_def getBlockCount_def grid_limited_def dims_of_def
      kMaxGridSizeY_def kMaxGridSizeZ_def)


section \<open>The threads of a launch\<close>

lemma word_of_nat_unat_less:
  fixes g :: uint32_t
  assumes "i < unat g"
  shows "(of_nat i :: uint32_t) < g" and "unat (of_nat i :: uint32_t) = i"
proof -
  have "unat g < 2 ^ 32" using unsigned_less [of g] by simp
  then have "i < 2 ^ 32" using assms by simp
  then show u: "unat (of_nat i :: uint32_t) = i" by (simp add: unat_of_nat)
  then show "(of_nat i :: uint32_t) < g" using assms by (simp add: word_less_nat_alt)
qed

lemma dim3_range_iff:
  "t \<in> set (dim3_range g) \<longleftrightarrow> dim_x t < dim_x g \<and> dim_y t < dim_y g \<and> dim_z t < dim_z g"
proof
  assume "t \<in> set (dim3_range g)"
  then show "dim_x t < dim_x g \<and> dim_y t < dim_y g \<and> dim_z t < dim_z g"
    by (auto simp: dim3_range_def word_of_nat_unat_less)
next
  assume h: "dim_x t < dim_x g \<and> dim_y t < dim_y g \<and> dim_z t < dim_z g"
  have "t = (\<lambda>(k, j, i). Dim3 (of_nat i) (of_nat j) (of_nat k))
              (unat (dim_z t), unat (dim_y t), unat (dim_x t))"
    by (cases t) simp
  moreover have "(unat (dim_z t), unat (dim_y t), unat (dim_x t))
      \<in> set (List.product [0..<unat (dim_z g)]
               (List.product [0..<unat (dim_y g)] [0..<unat (dim_x g)]))"
    using h by (simp add: word_less_nat_alt)
  ultimately show "t \<in> set (dim3_range g)"
    unfolding dim3_range_def by (metis (no_types, lifting) image_eqI set_map)
qed

lemma distinct_dim3_range: "distinct (dim3_range g)"
proof -
  let ?ps = "List.product [0..<unat (dim_z g)] (List.product [0..<unat (dim_y g)] [0..<unat (dim_x g)])"
  have "inj_on (\<lambda>(k, j, i). Dim3 (of_nat i :: uint32_t) (of_nat j) (of_nat k)) (set ?ps)"
  proof (rule inj_onI)
    fix p q assume p: "p \<in> set ?ps" and q: "q \<in> set ?ps"
      and e: "(\<lambda>(k, j, i). Dim3 (of_nat i :: uint32_t) (of_nat j) (of_nat k)) p
            = (\<lambda>(k, j, i). Dim3 (of_nat i) (of_nat j) (of_nat k)) q"
    obtain k j i where pp: "p = (k, j, i)" by (cases p) auto
    obtain k' j' i' where qq: "q = (k', j', i')" by (cases q) auto
    have "unat (of_nat i :: uint32_t) = i" "unat (of_nat j :: uint32_t) = j"
      "unat (of_nat k :: uint32_t) = k" "unat (of_nat i' :: uint32_t) = i'"
      "unat (of_nat j' :: uint32_t) = j'" "unat (of_nat k' :: uint32_t) = k'"
      using p q pp qq by (auto intro: word_of_nat_unat_less(2))
    then show "p = q" using e pp qq by (metis (no_types, lifting) case_prod_conv dim3.inject)
  qed
  moreover have "distinct ?ps" by (simp add: distinct_product)
  ultimately show ?thesis by (simp add: dim3_range_def distinct_map)
qed

lemma distinct_grid_threads: "distinct (grid_threads g b)"
  by (simp add: grid_threads_def distinct_product distinct_dim3_range)

lemma grid_threads_iff:
  "(blockIdx, threadIdx) \<in> set (grid_threads g b) \<longleftrightarrow>
     dim_x blockIdx < dim_x g \<and> dim_y blockIdx < dim_y g \<and> dim_z blockIdx < dim_z g
     \<and> dim_x threadIdx < dim_x b \<and> dim_y threadIdx < dim_y b \<and> dim_z threadIdx < dim_z b"
  by (simp add: grid_threads_def dim3_range_iff)

text \<open>
  An element that no thread of a launch changes keeps its value; an element that exactly one
  thread changes has the value that thread gives it. Both hold for every list of distinct
  threads, so what is proved below of a launch does not depend on the order in which its
  threads run.
\<close>

lemma run_threads_untouched:
  assumes "\<And>blockIdx threadIdx m. (blockIdx, threadIdx) \<in> set ts \<Longrightarrow> kern blockIdx b threadIdx m j = m j"
  shows "run_threads kern b ts dst j = dst j"
  using assms unfolding run_threads_def
  by (induction ts arbitrary: dst) auto

lemma run_threads_single:
  assumes "distinct ts" and "(bi, ti) \<in> set ts"
    and "\<And>blockIdx threadIdx m. (blockIdx, threadIdx) \<in> set ts \<Longrightarrow> (blockIdx, threadIdx) \<noteq> (bi, ti)
           \<Longrightarrow> kern blockIdx b threadIdx m j = m j"
    and "\<And>m. kern bi b ti m j = upd (m j)"
  shows "run_threads kern b ts dst j = upd (dst j)"
  using assms
proof (induction ts arbitrary: dst)
  case Nil
  then show ?case by simp
next
  case (Cons t ts)
  obtain bi' ti' where t: "t = (bi', ti')" by (cases t) auto
  have step: "run_threads kern b (t # ts) dst = run_threads kern b ts (kern bi' b ti' dst)"
    by (simp add: run_threads_def t)
  show ?case
  proof (cases "t = (bi, ti)")
    case True
    then have "(bi, ti) \<notin> set ts" using Cons.prems(1) by auto
    then have "run_threads kern b ts (kern bi' b ti' dst) j = kern bi' b ti' dst j"
      using Cons.prems(3) by (intro run_threads_untouched) auto
    then show ?thesis using True t step Cons.prems(4) by simp
  next
    case False
    then have "run_threads kern b ts (kern bi' b ti' dst) j = upd (kern bi' b ti' dst j)"
      using Cons.prems by (intro Cons.IH) auto
    moreover have "kern bi' b ti' dst j = dst j"
      using False t Cons.prems(3) [of bi' ti' dst] by simp
    ultimately show ?thesis using step by simp
  qed
qed

text \<open>The global coordinate of a thread along one axis, when the grid fits 32 bits.\<close>

lemma coord_unat:
  fixes bi g ti bd :: uint32_t
  assumes "bi < g" and "ti < bd" and "unat g * unat bd \<le> 2 ^ 32"
  shows "unat (bi * bd + ti) = unat bi * unat bd + unat ti"
proof -
  have "unat bi + 1 \<le> unat g" "unat ti < unat bd"
    using assms by (simp_all add: word_less_nat_alt)
  then have "(unat bi + 1) * unat bd \<le> unat g * unat bd"
    by (intro mult_le_mono1)
  then have b: "unat bi * unat bd + unat ti < 2 ^ 32"
    using assms(3) \<open>unat ti < unat bd\<close> by (simp add: algebra_simps)
  then have "unat bi * unat bd < 2 ^ 32" by simp
  then have "unat (bi * bd) = unat bi * unat bd"
    by (simp add: unat_mult_lem [THEN iffD1])
  then show ?thesis using b by (simp add: unat_add_lem [THEN iffD1])
qed

lemma coord_exists:
  fixes g bd :: uint32_t
  assumes "n < unat g * unat bd"
  shows "\<exists>bi ti. bi < g \<and> ti < bd \<and> unat bi = n div unat bd \<and> unat ti = n mod unat bd"
proof -
  have bd: "0 < unat bd" using assms by (cases "unat bd = 0") auto
  have d: "n div unat bd < unat g" using assms bd
    by (simp add: less_mult_imp_div_less)
  have m: "n mod unat bd < unat bd" using bd by simp
  show ?thesis
    using word_of_nat_unat_less [OF d] word_of_nat_unat_less [OF m] by blast
qed

section \<open>Coverage of the conversions\<close>

lemma unat_ucast_le_32_64:
  "(sz :: size_t) \<le> ucast (t :: uint32_t) \<longleftrightarrow> unat sz \<le> unat t"
  by (simp add: word_le_nat_alt unat_ucast_32_64)

lemma fp32Tofp16Kernel_at:
  "fp32Tofp16Kernel float2half src sz blockIdx blockDim threadIdx dst j =
     (if j = unat (dim_x blockIdx * dim_x blockDim + dim_x threadIdx) \<and> j < unat sz
      then float2half (src j) else dst j)"
  by (auto simp: fp32Tofp16Kernel_def Let_def unat_ucast_le_32_64 unat_ucast_32_64)

lemma fp16Tofp32Kernel_at:
  "fp16Tofp32Kernel half2float src sz blockIdx blockDim threadIdx dst j =
     (if j = unat (dim_x blockIdx * dim_x blockDim + dim_x threadIdx) \<and> j < unat sz
      then half2float (src j) else dst j)"
  by (auto simp: fp16Tofp32Kernel_def Let_def unat_ucast_le_32_64 unat_ucast_32_64)

text \<open>The grid of a conversion never has more than \<open>2 ^ 32 - 256\<close> threads.\<close>

lemma conv_grid_bound:
  fixes t :: uint32_t
  shows "unat ((t + 256 - 1) div 256) * 256 \<le> 2 ^ 32 - 256"
proof -
  have "unat (t + 256 - 1) < 2 ^ 32" using unsigned_less [of "t + 256 - 1"] by simp
  then have "unat (t + 256 - 1) div 256 \<le> 16777215" by simp
  then show ?thesis by (simp add: unat_div)
qed

lemma tid_in_grid:
  fixes gx :: uint32_t
  assumes "unat gx * 256 \<le> 2 ^ 32"
    and "(blockIdx, threadIdx) \<in> set (grid_threads (Dim3 gx 1 1) (Dim3 256 1 1))"
  shows "unat (dim_x blockIdx * 256 + dim_x threadIdx) = unat (dim_x blockIdx) * 256 + unat (dim_x threadIdx)"
    and "unat (dim_x blockIdx * 256 + dim_x threadIdx) < unat gx * 256"
    and "unat (dim_x threadIdx) < 256"
proof -
  have b: "dim_x blockIdx < gx" and t: "dim_x threadIdx < 256"
    using assms(2) by (simp_all add: grid_threads_iff)
  show c: "unat (dim_x blockIdx * 256 + dim_x threadIdx) = unat (dim_x blockIdx) * 256 + unat (dim_x threadIdx)"
    using coord_unat [OF b t] assms(1) by simp
  show t': "unat (dim_x threadIdx) < 256" using t by (simp add: word_less_nat_alt)
  have "unat (dim_x blockIdx) + 1 \<le> unat gx" using b by (simp add: word_less_nat_alt)
  then have "(unat (dim_x blockIdx) + 1) * 256 \<le> unat gx * 256" by simp
  then show "unat (dim_x blockIdx * 256 + dim_x threadIdx) < unat gx * 256"
    using c t' by simp
qed


lemma mixed_radix_unique:
  fixes a b a' b' n :: nat
  assumes "a * n + b = a' * n + b'" and "b < n" and "b' < n"
  shows "a = a'" and "b = b'"
proof -
  have "(a * n + b) div n = a" using assms(2) by simp
  moreover have "(a' * n + b') div n = a'" using assms(3) by simp
  ultimately show e: "a = a'" using assms(1) by (simp only:)
  show "b = b'" using assms(1) unfolding e by simp
qed

lemma elementwise_grid:
  fixes gx :: uint32_t
  assumes at: "\<And>blockIdx blockDim threadIdx m i. kern blockIdx blockDim threadIdx m i =
                 (if i = unat (dim_x blockIdx * dim_x blockDim + dim_x threadIdx) \<and> i < n
                  then f i else m i)"
    and g: "unat gx * 256 \<le> 2 ^ 32"
  shows "j < n \<Longrightarrow> j < unat gx * 256 \<Longrightarrow>
           run_threads kern (Dim3 256 1 1) (grid_threads (Dim3 gx 1 1) (Dim3 256 1 1)) dst j = f j"
    and "\<not> (j < n \<and> j < unat gx * 256) \<Longrightarrow>
           run_threads kern (Dim3 256 1 1) (grid_threads (Dim3 gx 1 1) (Dim3 256 1 1)) dst j = dst j"
    and "j < unat gx * 256 \<Longrightarrow>
           \<exists>!t. t \<in> set (grid_threads (Dim3 gx 1 1) (Dim3 256 1 1))
                \<and> unat (dim_x (fst t) * 256 + dim_x (snd t)) = j"
proof -
  let ?ts = "grid_threads (Dim3 gx 1 1) (Dim3 256 1 1)"
  have inj: "t = t'" if "t \<in> set ?ts" "t' \<in> set ?ts"
    "unat (dim_x (fst t) * 256 + dim_x (snd t)) = unat (dim_x (fst t') * 256 + dim_x (snd t'))" for t t'
  proof -
    obtain bi ti where t: "t = (bi, ti)" by (cases t) auto
    obtain bi' ti' where t': "t' = (bi', ti')" by (cases t') auto
    have m: "(bi, ti) \<in> set ?ts" "(bi', ti') \<in> set ?ts" using that t t' by auto
    have "unat (dim_x bi) * 256 + unat (dim_x ti) = unat (dim_x bi') * 256 + unat (dim_x ti')"
      using that(3) tid_in_grid(1) [OF g m(1)] tid_in_grid(1) [OF g m(2)] t t' by simp
    moreover have "unat (dim_x ti) < 256" "unat (dim_x ti') < 256"
      using tid_in_grid(3) [OF g m(1)] tid_in_grid(3) [OF g m(2)] by auto
    ultimately have "unat (dim_x bi) = unat (dim_x bi')" "unat (dim_x ti) = unat (dim_x ti')"
      by (rule mixed_radix_unique)+
    then have "dim_x bi = dim_x bi'" "dim_x ti = dim_x ti'"
      by (simp_all only: unsigned_word_eqI)
    moreover have "dim_y bi = 0" "dim_z bi = 0" "dim_y ti = 0" "dim_z ti = 0"
      "dim_y bi' = 0" "dim_z bi' = 0" "dim_y ti' = 0" "dim_z ti' = 0"
      using m by (simp_all add: grid_threads_iff word_less_1)
    ultimately show ?thesis using t t' by (simp add: dim3.expand)
  qed
  have ex: "\<exists>t. t \<in> set ?ts \<and> unat (dim_x (fst t) * 256 + dim_x (snd t)) = j" if "j < unat gx * 256"
  proof -
    have "j < unat gx * unat (256 :: uint32_t)" using that by simp
    from coord_exists [OF this] obtain bi ti :: uint32_t where
      bt: "bi < gx" "ti < 256" "unat bi = j div 256" "unat ti = j mod 256" by auto
    have "unat (bi * 256 + ti) = unat bi * unat (256 :: uint32_t) + unat ti"
      using g by (intro coord_unat [OF bt(1) bt(2)]) simp
    then have "unat (bi * 256 + ti) = j" using bt by simp
    moreover have "(Dim3 bi 0 0, Dim3 ti 0 0) \<in> set ?ts"
      using bt by (simp add: grid_threads_iff)
    ultimately show ?thesis by (intro exI [of _ "(Dim3 bi 0 0, Dim3 ti 0 0)"]) simp
  qed
  show "\<exists>!t. t \<in> set ?ts \<and> unat (dim_x (fst t) * 256 + dim_x (snd t)) = j" if "j < unat gx * 256"
  proof -
    from ex [OF that] obtain t where
      t: "t \<in> set ?ts \<and> unat (dim_x (fst t) * 256 + dim_x (snd t)) = j" by blast
    show ?thesis
    proof (rule ex1I [of _ t])
      show "t \<in> set ?ts \<and> unat (dim_x (fst t) * 256 + dim_x (snd t)) = j" by (rule t)
    next
      fix t' assume "t' \<in> set ?ts \<and> unat (dim_x (fst t') * 256 + dim_x (snd t')) = j"
      then show "t' = t" using t by (intro inj) simp_all
    qed
  qed
  show "run_threads kern (Dim3 256 1 1) ?ts dst j = f j" if "j < n" "j < unat gx * 256"
  proof -
    from ex [OF that(2)] obtain bi ti where
      t0: "(bi, ti) \<in> set ?ts" "unat (dim_x bi * 256 + dim_x ti) = j" by auto
    have "run_threads kern (Dim3 256 1 1) ?ts dst j = (\<lambda>v. f j) (dst j)"
    proof (rule run_threads_single [OF distinct_grid_threads t0(1)])
      fix blockIdx threadIdx and m :: "nat \<Rightarrow> 'a"
      assume a: "(blockIdx, threadIdx) \<in> set ?ts" "(blockIdx, threadIdx) \<noteq> (bi, ti)"
      then have "unat (dim_x blockIdx * 256 + dim_x threadIdx) \<noteq> j"
        using inj [of "(blockIdx, threadIdx)" "(bi, ti)"] t0 by auto
      then show "kern blockIdx (Dim3 256 1 1) threadIdx m j = m j"
        by (simp add: at)
    next
      fix m :: "nat \<Rightarrow> 'a"
      show "kern bi (Dim3 256 1 1) ti m j = f j" using t0(2) that(1) by (simp add: at)
    qed
    then show ?thesis by simp
  qed
  show "run_threads kern (Dim3 256 1 1) ?ts dst j = dst j" if "\<not> (j < n \<and> j < unat gx * 256)"
  proof (rule run_threads_untouched)
    fix blockIdx threadIdx and m :: "nat \<Rightarrow> 'a"
    assume "(blockIdx, threadIdx) \<in> set ?ts"
    from tid_in_grid(2) [OF g this] that
    show "kern blockIdx (Dim3 256 1 1) threadIdx m j = m j"
      by (auto simp: at)
  qed
qed


lemma getBlockCount_Inr:
  "getBlockCount rt t bs = Inr r \<Longrightarrow> r = (t + bs - 1) div bs"
  by (simp add: getBlockCount_def Let_def split: if_splits)

lemma unat_truncated_count:
  fixes sz :: size_t
  shows "unat (((ucast sz :: uint32_t) + 256 - 1) div 256)
       = ((unat sz mod 2 ^ 32 + 255) mod 2 ^ 32) div 256"
proof -
  have u: "unat (ucast sz :: uint32_t) = unat sz mod 2 ^ 32"
    by (simp add: unsigned_ucast_eq take_bit_eq_mod)
  have e: "(ucast sz :: uint32_t) + 256 - 1 = ucast sz + 255" by simp
  have "unat ((ucast sz :: uint32_t) + 255)
      = (unat (ucast sz :: uint32_t) + unat (255 :: uint32_t)) mod 2 ^ LENGTH(32)"
    by (rule unat_word_ariths(1))
  then have "unat ((ucast sz :: uint32_t) + 255) = (unat sz mod 2 ^ 32 + 255) mod 2 ^ 32"
    by (simp only: u) simp
  then have "unat ((ucast sz :: uint32_t) + 256 - 1) = (unat sz mod 2 ^ 32 + 255) mod 2 ^ 32"
    by (simp only: e)
  then show ?thesis by (simp only: unat_div) simp
qed

lemma elementwise_launch_beyond:
  fixes t :: uint32_t
  assumes at: "\<And>blockIdx blockDim threadIdx m i. kern blockIdx blockDim threadIdx m i =
                 (if i = unat (dim_x blockIdx * dim_x blockDim + dim_x threadIdx) \<and> i < n
                  then f i else m i)"
    and "unat ((t + 256 - 1) div 256) * 256 \<le> j"
  shows "buf (launch rt name kern (Dim3 ((t + 256 - 1) div 256) 1 1) (Dim3 256 1 1) st) j = buf st j"
proof -
  have g: "unat ((t + 256 - 1) div 256) * 256 \<le> 2 ^ 32"
    using conv_grid_bound [of t] by simp
  have "\<not> (j < n \<and> j < unat ((t + 256 - 1) div 256) * 256)" using assms(2) by simp
  from elementwise_grid(2) [of kern n f, OF at g this]
  show ?thesis by (simp add: launch_def Let_def)
qed

lemma fp32Tofp16_beyond:
  assumes "((unat sz mod 2 ^ 32 + 255) mod 2 ^ 32) div 256 * 256 \<le> j"
  shows "buf (snd (fp32Tofp16 rt float2half src sz st)) j = buf st j"
proof (cases "getBlockCount rt (ucast sz) 256")
  case (Inl f)
  then show ?thesis by (simp add: fp32Tofp16_def)
next
  case (Inr gx)
  have gx: "gx = ((ucast sz :: uint32_t) + 256 - 1) div 256"
    using getBlockCount_Inr [OF Inr] .
  have b: "unat (((ucast sz :: uint32_t) + 256 - 1) div 256) * 256 \<le> j"
    using assms by (simp only: unat_truncated_count)
  have "buf (launch rt ''fp32Tofp16Kernel'' (fp32Tofp16Kernel float2half src sz)
          (Dim3 (((ucast sz :: uint32_t) + 256 - 1) div 256) 1 1) (Dim3 256 1 1) st) j = buf st j"
    by (rule elementwise_launch_beyond [where n = "unat sz" and f = "\<lambda>i. float2half (src i)", OF _ b])
      (rule fp32Tofp16Kernel_at)
  then show ?thesis using Inr gx by (simp add: fp32Tofp16_def Let_def)
qed

lemma fp16Tofp32_beyond:
  assumes "((unat sz mod 2 ^ 32 + 255) mod 2 ^ 32) div 256 * 256 \<le> j"
  shows "buf (snd (fp16Tofp32 rt half2float src sz st)) j = buf st j"
proof (cases "getBlockCount rt (ucast sz) 256")
  case (Inl f)
  then show ?thesis by (simp add: fp16Tofp32_def)
next
  case (Inr gx)
  have gx: "gx = ((ucast sz :: uint32_t) + 256 - 1) div 256"
    using getBlockCount_Inr [OF Inr] .
  have b: "unat (((ucast sz :: uint32_t) + 256 - 1) div 256) * 256 \<le> j"
    using assms by (simp only: unat_truncated_count)
  have "buf (launch rt ''fp16Tofp32Kernel'' (fp16Tofp32Kernel half2float src sz)
          (Dim3 (((ucast sz :: uint32_t) + 256 - 1) div 256) 1 1) (Dim3 256 1 1) st) j = buf st j"
    by (rule elementwise_launch_beyond [where n = "unat sz" and f = "\<lambda>i. half2float (src i)", OF _ b])
      (rule fp16Tofp32Kernel_at)
  then show ?thesis using Inr gx by (simp add: fp16Tofp32_def Let_def)
qed

text \<open>A count between 1 and 2^32 - 256: the grid and what the launch leaves.\<close>

lemma conv_count_in_range:
  fixes sz :: size_t
  assumes "0 < unat sz" and "unat sz \<le> 2 ^ 32 - 256"
  shows "getBlockCount rt (ucast sz) 256 = Inr (of_nat ((unat sz + 255) div 256))"
    and "unat (of_nat ((unat sz + 255) div 256) :: uint32_t) = (unat sz + 255) div 256"
proof -
  have u: "unat (ucast sz :: uint32_t) = unat sz"
    using assms by (simp add: unsigned_ucast_eq take_bit_nat_eq_self)
  have "getBlockCount rt (ucast sz) 256 = Inr (((ucast sz :: uint32_t) + 256 - 1) div 256)"
    using assms u by (intro getBlockCount_asserts) simp_all
  moreover have r: "unat (((ucast sz :: uint32_t) + 256 - 1) div 256) = (unat sz + 255) div 256"
    using getBlockCount_res [of 256 "ucast sz"] assms u by simp
  ultimately show "getBlockCount rt (ucast sz) 256 = Inr (of_nat ((unat sz + 255) div 256))"
    by (simp flip: r)
  show "unat (of_nat ((unat sz + 255) div 256) :: uint32_t) = (unat sz + 255) div 256"
    by (simp flip: r)
qed


lemma elementwise_in_range:
  fixes gx :: uint32_t
  assumes at: "\<And>blockIdx blockDim threadIdx m i. kern blockIdx blockDim threadIdx m i =
                 (if i = unat (dim_x blockIdx * dim_x blockDim + dim_x threadIdx) \<and> i < n
                  then f i else m i)"
    and n: "n \<le> 2 ^ 32 - 256" and gx: "unat gx = (n + 255) div 256"
  shows "j < n \<Longrightarrow>
           run_threads kern (Dim3 256 1 1) (grid_threads (Dim3 gx 1 1) (Dim3 256 1 1)) dst j = f j"
    and "\<not> j < n \<Longrightarrow>
           run_threads kern (Dim3 256 1 1) (grid_threads (Dim3 gx 1 1) (Dim3 256 1 1)) dst j = dst j"
    and "j < n \<Longrightarrow>
           \<exists>!t. t \<in> set (grid_threads (Dim3 gx 1 1) (Dim3 256 1 1))
                \<and> unat (dim_x (fst t) * 256 + dim_x (snd t)) = j"
proof -
  have "(n + 255) div 256 * 256 \<le> n + 255" by simp
  then have g: "unat gx * 256 \<le> 2 ^ 32" using n gx by simp
  have "n + 255 < ((n + 255) div 256 + 1) * 256"
    using dividend_less_times_div [of 256 "n + 255"] by (simp add: algebra_simps)
  then have c: "n \<le> unat gx * 256" using gx by simp
  show "run_threads kern (Dim3 256 1 1) (grid_threads (Dim3 gx 1 1) (Dim3 256 1 1)) dst j = f j"
    if "j < n"
    using elementwise_grid(1) [where kern = kern and n = n and f = f and gx = gx and j = j and dst = dst, OF at g] that c by simp
  show "run_threads kern (Dim3 256 1 1) (grid_threads (Dim3 gx 1 1) (Dim3 256 1 1)) dst j = dst j"
    if "\<not> j < n"
    using elementwise_grid(2) [where kern = kern and n = n and f = f and gx = gx and j = j and dst = dst, OF at g] that by simp
  show "\<exists>!t. t \<in> set (grid_threads (Dim3 gx 1 1) (Dim3 256 1 1))
                \<and> unat (dim_x (fst t) * 256 + dim_x (snd t)) = j" if "j < n"
    using elementwise_grid(3) [where kern = kern and n = n and f = f and gx = gx and j = j, OF at g] that c by simp
qed

text \<open>
  Claim C9, as amended. \<^verbatim>\<open>fp32Tofp16\<close> and \<^verbatim>\<open>fp16Tofp32\<close> size their grid from the count
  reduced modulo \<open>2 ^ 32\<close>: whatever the count, the runtime and the build, every element at
  or beyond \<open>((sz mod 2 ^ 32 + 255) mod 2 ^ 32) div 256 * 256\<close> is left as it was, which for
  \<open>sz \<ge> 2 ^ 32\<close> includes elements below \<open>sz\<close>. For \<open>0 < sz \<le> 2 ^ 32 - 256\<close> and a launch
  that succeeds, the operation returns success, every element below \<open>sz\<close> is the conversion
  of its source element and is the index of exactly one thread of the grid, and the elements
  from \<open>sz\<close> on are unchanged.
\<close>

theorem conversion_coverage:
  "(\<forall>j. ((unat sz mod 2 ^ 32 + 255) mod 2 ^ 32) div 256 * 256 \<le> j \<longrightarrow>
        buf (snd (fp32Tofp16 rt float2half srcf sz sth)) j = buf sth j
      \<and> buf (snd (fp16Tofp32 rt half2float srch sz stf)) j = buf stf j)
   \<and> (0 < unat sz \<and> unat sz \<le> 2 ^ 32 - 256
       \<and> lastError rt (length (launched sth))
            (Dim3 (of_nat ((unat sz + 255) div 256)) 1 1) (Dim3 256 1 1) = cudaSuccess
       \<and> (ndebug rt \<or> streamSynchronize rt (length (launched sth)) = cudaSuccess)
     \<longrightarrow> fst (fp32Tofp16 rt float2half srcf sz sth) = Inr cudaSuccess
       \<and> (\<forall>j. j < unat sz \<longrightarrow>
             buf (snd (fp32Tofp16 rt float2half srcf sz sth)) j = float2half (srcf j)
           \<and> (\<exists>!t. t \<in> set (grid_threads (Dim3 (of_nat ((unat sz + 255) div 256)) 1 1) (Dim3 256 1 1))
                  \<and> unat (dim_x (fst t) * 256 + dim_x (snd t)) = j))
       \<and> (\<forall>j. unat sz \<le> j \<longrightarrow> buf (snd (fp32Tofp16 rt float2half srcf sz sth)) j = buf sth j))
   \<and> (0 < unat sz \<and> unat sz \<le> 2 ^ 32 - 256
       \<and> lastError rt (length (launched stf))
            (Dim3 (of_nat ((unat sz + 255) div 256)) 1 1) (Dim3 256 1 1) = cudaSuccess
       \<and> (ndebug rt \<or> streamSynchronize rt (length (launched stf)) = cudaSuccess)
     \<longrightarrow> fst (fp16Tofp32 rt half2float srch sz stf) = Inr cudaSuccess
       \<and> (\<forall>j. j < unat sz \<longrightarrow>
             buf (snd (fp16Tofp32 rt half2float srch sz stf)) j = half2float (srch j)
           \<and> (\<exists>!t. t \<in> set (grid_threads (Dim3 (of_nat ((unat sz + 255) div 256)) 1 1) (Dim3 256 1 1))
                  \<and> unat (dim_x (fst t) * 256 + dim_x (snd t)) = j))
       \<and> (\<forall>j. unat sz \<le> j \<longrightarrow> buf (snd (fp16Tofp32 rt half2float srch sz stf)) j = buf stf j))"
proof (intro conjI impI allI)
  fix j assume "((unat sz mod 2 ^ 32 + 255) mod 2 ^ 32) div 256 * 256 \<le> j"
  then show "buf (snd (fp32Tofp16 rt float2half srcf sz sth)) j = buf sth j"
    and "buf (snd (fp16Tofp32 rt half2float srch sz stf)) j = buf stf j"
    by (rule fp32Tofp16_beyond, rule fp16Tofp32_beyond)
next
  let ?gx = "of_nat ((unat sz + 255) div 256) :: uint32_t"
  assume h: "0 < unat sz \<and> unat sz \<le> 2 ^ 32 - 256
       \<and> lastError rt (length (launched sth)) (Dim3 ?gx 1 1) (Dim3 256 1 1) = cudaSuccess
       \<and> (ndebug rt \<or> streamSynchronize rt (length (launched sth)) = cudaSuccess)"
  then have n: "0 < unat sz" "unat sz \<le> 2 ^ 32 - 256" by simp_all
  note c = conv_count_in_range(1) [OF n, of rt] conv_count_in_range(2) [OF n]
  note e = elementwise_in_range [where kern = "fp32Tofp16Kernel float2half srcf sz"
      and n = "unat sz" and f = "\<lambda>i. float2half (srcf i)" and gx = ?gx,
      OF fp32Tofp16Kernel_at n(2) c(2)]
  have r: "fp32Tofp16 rt float2half srcf sz sth =
      (Inr cudaSuccess,
       \<lparr>buf = run_threads (fp32Tofp16Kernel float2half srcf sz) (Dim3 256 1 1)
                (grid_threads (Dim3 ?gx 1 1) (Dim3 256 1 1)) (buf sth),
         launched = launched sth @ [''fp32Tofp16Kernel''], last_error = cudaSuccess\<rparr>)"
    using h c(1) by (auto simp: fp32Tofp16_def launch_def CHECKK_def Let_def)
  show "fst (fp32Tofp16 rt float2half srcf sz sth) = Inr cudaSuccess" by (simp add: r)
  show "buf (snd (fp32Tofp16 rt float2half srcf sz sth)) j = float2half (srcf j)"
    if "j < unat sz" for j using e(1) [OF that] by (simp add: r)
  show "\<exists>!t. t \<in> set (grid_threads (Dim3 ?gx 1 1) (Dim3 256 1 1))
                  \<and> unat (dim_x (fst t) * 256 + dim_x (snd t)) = j"
    if "j < unat sz" for j using e(3) [OF that] .
  show "buf (snd (fp32Tofp16 rt float2half srcf sz sth)) j = buf sth j"
    if "unat sz \<le> j" for j using e(2) [of j] that by (simp add: r)
next
  let ?gx = "of_nat ((unat sz + 255) div 256) :: uint32_t"
  assume h: "0 < unat sz \<and> unat sz \<le> 2 ^ 32 - 256
       \<and> lastError rt (length (launched stf)) (Dim3 ?gx 1 1) (Dim3 256 1 1) = cudaSuccess
       \<and> (ndebug rt \<or> streamSynchronize rt (length (launched stf)) = cudaSuccess)"
  then have n: "0 < unat sz" "unat sz \<le> 2 ^ 32 - 256" by simp_all
  note c = conv_count_in_range(1) [OF n, of rt] conv_count_in_range(2) [OF n]
  note e = elementwise_in_range [where kern = "fp16Tofp32Kernel half2float srch sz"
      and n = "unat sz" and f = "\<lambda>i. half2float (srch i)" and gx = ?gx,
      OF fp16Tofp32Kernel_at n(2) c(2)]
  have r: "fp16Tofp32 rt half2float srch sz stf =
      (Inr cudaSuccess,
       \<lparr>buf = run_threads (fp16Tofp32Kernel half2float srch sz) (Dim3 256 1 1)
                (grid_threads (Dim3 ?gx 1 1) (Dim3 256 1 1)) (buf stf),
         launched = launched stf @ [''fp16Tofp32Kernel''], last_error = cudaSuccess\<rparr>)"
    using h c(1) by (auto simp: fp16Tofp32_def launch_def CHECKK_def Let_def)
  show "fst (fp16Tofp32 rt half2float srch sz stf) = Inr cudaSuccess" by (simp add: r)
  show "buf (snd (fp16Tofp32 rt half2float srch sz stf)) j = half2float (srch j)"
    if "j < unat sz" for j using e(1) [OF that] by (simp add: r)
  show "\<exists>!t. t \<in> set (grid_threads (Dim3 ?gx 1 1) (Dim3 256 1 1))
                  \<and> unat (dim_x (fst t) * 256 + dim_x (snd t)) = j"
    if "j < unat sz" for j using e(3) [OF that] .
  show "buf (snd (fp16Tofp32 rt half2float srch sz stf)) j = buf stf j"
    if "unat sz \<le> j" for j using e(2) [of j] that by (simp add: r)
qed

theorem conversion_coverage_witness:
  "buf (snd (fp32Tofp16 debug_ok incr ones 5 idle)) 256 = buf idle 256
   \<and> buf (snd (fp16Tofp32 debug_ok incr ones 5 idle)) 256 = buf idle 256
   \<and> fst (fp32Tofp16 debug_ok incr ones 5 idle) = Inr cudaSuccess
   \<and> buf (snd (fp32Tofp16 debug_ok incr ones 5 idle)) 3 = incr (ones 3)
   \<and> (\<exists>!t. t \<in> set (grid_threads (Dim3 (of_nat ((unat (5 :: size_t) + 255) div 256)) 1 1)
                     (Dim3 256 1 1))
           \<and> unat (dim_x (fst t) * 256 + dim_x (snd t)) = 3)
   \<and> buf (snd (fp32Tofp16 debug_ok incr ones 5 idle)) 7 = buf idle 7
   \<and> fst (fp16Tofp32 debug_ok incr ones 5 idle) = Inr cudaSuccess
   \<and> buf (snd (fp16Tofp32 debug_ok incr ones 5 idle)) 3 = incr (ones 3)
   \<and> buf (snd (fp16Tofp32 debug_ok incr ones 5 idle)) 7 = buf idle 7"
proof -
  note w = conversion_coverage [where rt = debug_ok and sz = 5 and sth = idle and stf = idle
      and ?float2half.0 = incr and ?half2float.0 = incr and srcf = ones and srch = ones]
  have h: "0 < unat (5 :: size_t) \<and> unat (5 :: size_t) \<le> 2 ^ 32 - 256
       \<and> lastError debug_ok (length (launched idle))
            (Dim3 (of_nat ((unat (5 :: size_t) + 255) div 256)) 1 1) (Dim3 256 1 1) = cudaSuccess
       \<and> (ndebug debug_ok \<or> streamSynchronize debug_ok (length (launched idle)) = cudaSuccess)"
    by (simp add: debug_ok_def)
  have b: "((unat (5 :: size_t) mod 2 ^ 32 + 255) mod 2 ^ 32) div 256 * 256 \<le> 256"
    by simp
  from w [THEN conjunct1, THEN spec, THEN mp, OF b]
    w [THEN conjunct2, THEN conjunct1, THEN mp, OF h]
    w [THEN conjunct2, THEN conjunct2, THEN mp, OF h]
  show ?thesis by simp
qed

text \<open>
  Claim C9 as it is written takes \<open>size < 2 ^ 32\<close> for the precondition of the coverage.
  With \<open>size = 2 ^ 32 - 1\<close> the sum \<open>size + 255\<close> wraps in \<^verbatim>\<open>getBlockCount\<close> and the grid has
  no block: element 0 keeps its old value 0 where the conversion of its source is 2.
\<close>

theorem truncated_count_leaves_elements:
  "buf (snd (fp32Tofp16 release_ok incr ones 4294967295 idle)) 0 = 0
   \<and> incr (ones 0) = 2
   \<and> buf (snd (fp16Tofp32 release_ok incr ones 4294967295 idle)) 0 = 0"
proof -
  have "((unat (4294967295 :: size_t) mod 2 ^ 32 + 255) mod 2 ^ 32) div 256 * 256 \<le> 0"
    by simp
  from fp32Tofp16_beyond [OF this, of release_ok incr ones idle]
    fp16Tofp32_beyond [OF this, of release_ok incr ones idle]
  show ?thesis by (simp add: idle_def incr_def ones_def)
qed

section \<open>The bias is added once to each element\<close>

lemma flat_index_unique:
  fixes x y z x' y' z' H W :: nat
  assumes "z * H * W + y * W + x = z' * H * W + y' * W + x'"
    and "x < W" and "x' < W" and "y < H" and "y' < H"
  shows "x = x' \<and> y = y' \<and> z = z'"
proof -
  have "(z * H + y) * W + x = (z' * H + y') * W + x'"
    using assms(1) by (simp add: algebra_simps)
  from mixed_radix_unique [OF this assms(2,3)]
  have a: "z * H + y = z' * H + y'" and b: "x = x'" by simp_all
  from mixed_radix_unique [OF a assms(4,5)] b show ?thesis by simp
qed

lemma flat_index_less:
  fixes x y z H W n :: nat
  assumes "x < W" and "y < H" and "z < n"
  shows "z * H * W + y * W + x < n * H * W"
proof -
  have "y * W + x < H * W"
  proof -
    have "y * W + x < (y + 1) * W" using assms(1) by simp
    also have "\<dots> \<le> H * W" using assms(2) by (intro mult_le_mono1) simp
    finally show ?thesis .
  qed
  then have "z * (H * W) + (y * W + x) < (z + 1) * (H * W)" by simp
  also have "\<dots> \<le> n * (H * W)" using assms(3) by (intro mult_le_mono1) simp
  finally show ?thesis by (simp add: algebra_simps)
qed

text \<open>Grids of blocks of 16 by 16 by 1 threads: each point below the grid is one thread.\<close>

lemma grid16_xyz:
  fixes gx gy gz :: uint32_t
  assumes g: "unat gx * 16 \<le> 2 ^ 32" "unat gy * 16 \<le> 2 ^ 32"
    and t: "(blockIdx, threadIdx) \<in> set (grid_threads (Dim3 gx gy gz) (Dim3 16 16 1))"
  shows "thread_xyz (Dim3 16 16 1) (blockIdx, threadIdx)
       = (unat (dim_x blockIdx) * 16 + unat (dim_x threadIdx),
          unat (dim_y blockIdx) * 16 + unat (dim_y threadIdx),
          unat (dim_z blockIdx))"
    and "unat (dim_x threadIdx) < 16" and "unat (dim_y threadIdx) < 16" and "dim_z threadIdx = 0"
    and "unat (dim_x blockIdx) < unat gx" and "unat (dim_y blockIdx) < unat gy"
    and "unat (dim_z blockIdx) < unat gz"
proof -
  have m: "dim_x blockIdx < gx" "dim_y blockIdx < gy" "dim_z blockIdx < gz"
    "dim_x threadIdx < 16" "dim_y threadIdx < 16" "dim_z threadIdx < 1"
    using t by (simp_all add: grid_threads_iff)
  show z: "dim_z threadIdx = 0" using m(6) by (simp add: word_less_1)
  have "unat (dim_x blockIdx * 16 + dim_x threadIdx) = unat (dim_x blockIdx) * unat (16 :: uint32_t) + unat (dim_x threadIdx)"
    using g(1) by (intro coord_unat [OF m(1) m(4)]) simp
  moreover have "unat (dim_y blockIdx * 16 + dim_y threadIdx) = unat (dim_y blockIdx) * unat (16 :: uint32_t) + unat (dim_y threadIdx)"
    using g(2) by (intro coord_unat [OF m(2) m(5)]) simp
  ultimately show "thread_xyz (Dim3 16 16 1) (blockIdx, threadIdx)
       = (unat (dim_x blockIdx) * 16 + unat (dim_x threadIdx),
          unat (dim_y blockIdx) * 16 + unat (dim_y threadIdx),
          unat (dim_z blockIdx))"
    using z by (simp add: thread_xyz_def)
  show "unat (dim_x threadIdx) < 16" "unat (dim_y threadIdx) < 16"
    using m(4,5) by (simp_all add: word_less_nat_alt)
  show "unat (dim_x blockIdx) < unat gx" "unat (dim_y blockIdx) < unat gy"
    "unat (dim_z blockIdx) < unat gz"
    using m(1,2,3) by (simp_all add: word_less_nat_alt)
qed

lemma grid16_inj:
  fixes gx gy gz :: uint32_t
  assumes g: "unat gx * 16 \<le> 2 ^ 32" "unat gy * 16 \<le> 2 ^ 32"
    and t: "t \<in> set (grid_threads (Dim3 gx gy gz) (Dim3 16 16 1))"
    and t': "t' \<in> set (grid_threads (Dim3 gx gy gz) (Dim3 16 16 1))"
    and e: "thread_xyz (Dim3 16 16 1) t = thread_xyz (Dim3 16 16 1) t'"
  shows "t = t'"
proof -
  obtain bi ti where p: "t = (bi, ti)" by (cases t) auto
  obtain bi' ti' where p': "t' = (bi', ti')" by (cases t') auto
  note a = grid16_xyz [OF g t [unfolded p]]
  note a' = grid16_xyz [OF g t' [unfolded p']]
  have x: "unat (dim_x bi) * 16 + unat (dim_x ti) = unat (dim_x bi') * 16 + unat (dim_x ti')"
    and y: "unat (dim_y bi) * 16 + unat (dim_y ti) = unat (dim_y bi') * 16 + unat (dim_y ti')"
    and z: "unat (dim_z bi) = unat (dim_z bi')"
    using e a(1) a'(1) p p' by simp_all
  from mixed_radix_unique [OF x a(2) a'(2)] mixed_radix_unique [OF y a(3) a'(3)] z
  have "dim_x bi = dim_x bi'" "dim_x ti = dim_x ti'" "dim_y bi = dim_y bi'" "dim_y ti = dim_y ti'"
    "dim_z bi = dim_z bi'"
    by (simp_all only: unsigned_word_eqI)
  then show ?thesis using a(4) a'(4) p p' by (simp add: dim3.expand)
qed

lemma grid16_ex:
  fixes gx gy gz :: uint32_t
  assumes g: "unat gx * 16 \<le> 2 ^ 32" "unat gy * 16 \<le> 2 ^ 32"
    and "x < unat gx * 16" and "y < unat gy * 16" and "z < unat gz"
  shows "\<exists>t. t \<in> set (grid_threads (Dim3 gx gy gz) (Dim3 16 16 1))
           \<and> thread_xyz (Dim3 16 16 1) t = (x, y, z)"
proof -
  have "x < unat gx * unat (16 :: uint32_t)" "y < unat gy * unat (16 :: uint32_t)"
    using assms by simp_all
  from coord_exists [OF this(1)] coord_exists [OF this(2)]
  obtain bx tx by' ty :: uint32_t where
    bt: "bx < gx" "tx < 16" "unat bx = x div 16" "unat tx = x mod 16"
      "by' < gy" "ty < 16" "unat by' = y div 16" "unat ty = y mod 16"
    by auto
  have bz: "(of_nat z :: uint32_t) < gz" "unat (of_nat z :: uint32_t) = z"
    using word_of_nat_unat_less [OF assms(5)] by simp_all
  let ?t = "(Dim3 bx by' (of_nat z), Dim3 tx ty 0)"
  have m: "?t \<in> set (grid_threads (Dim3 gx gy gz) (Dim3 16 16 1))"
    using bt bz by (simp add: grid_threads_iff)
  have "thread_xyz (Dim3 16 16 1) ?t = (x, y, z)"
    using grid16_xyz(1) [OF g m] bt bz by simp
  then show ?thesis using m by blast
qed


lemma flat_index_unat:
  fixes ix iy iz h w :: uint32_t
  assumes "unat ix < unat w" and "unat iy < unat h" and "unat iz < n"
    and "n * unat h * unat w \<le> 2 ^ 32"
  shows "unat (iz * h * w + iy * w + ix) = unat iz * unat h * unat w + unat iy * unat w + unat ix"
proof -
  let ?n = "unat iz * unat h * unat w + unat iy * unat w + unat ix"
  have "?n < n * unat h * unat w" using assms(1,2,3) by (rule flat_index_less)
  then have b: "?n < 2 ^ 32" using assms(4) by simp
  have "iz * h * w + iy * w + ix = of_nat ?n" by simp
  then have "unat (iz * h * w + iy * w + ix) = ?n mod 2 ^ 32"
    by (simp only: unat_of_nat) simp
  then show ?thesis using b by simp
qed

lemma addDBiasTo3DConvKernel_at:
  fixes c d h w :: int32_t
  assumes nd: "unat c * unat d < 2 ^ 32"
    and tot: "unat c * unat d * unat h * unat w \<le> 2 ^ 32"
  shows "addDBiasTo3DConvKernel bias c d h w blockIdx blockDim threadIdx conv j =
     (case thread_xyz blockDim (blockIdx, threadIdx) of (x, y, z) \<Rightarrow>
        if x < unat w \<and> y < unat h \<and> z < unat c * unat d
           \<and> j = z * unat h * unat w + y * unat w + x
        then conv j + bias (z mod unat d) else conv j)"
proof -
  let ?ix = "dim_x blockIdx * dim_x blockDim + dim_x threadIdx"
  let ?iy = "dim_y blockIdx * dim_y blockDim + dim_y threadIdx"
  let ?iz = "dim_z blockIdx * dim_z blockDim + dim_z threadIdx"
  have dc: "unat (d * c) = unat c * unat d"
    using nd by (simp add: unat_mult_lem [THEN iffD1] mult.commute)
  show ?thesis
  proof (cases "unat ?ix < unat w \<and> unat ?iy < unat h \<and> unat ?iz < unat c * unat d")
    case False
    then have "w \<le> ?ix \<or> h \<le> ?iy \<or> d * c \<le> ?iz"
      by (auto simp: word_le_nat_alt dc)
    then show ?thesis using False
      by (auto simp: addDBiasTo3DConvKernel_def thread_xyz_def Let_def)
  next
    case True
    then have g: "\<not> (w \<le> ?ix \<or> h \<le> ?iy \<or> d * c \<le> ?iz)"
      by (auto simp: word_le_nat_alt dc)
    have i: "unat (?iz * h * w + ?iy * w + ?ix)
           = unat ?iz * unat h * unat w + unat ?iy * unat w + unat ?ix"
      using True tot by (intro flat_index_unat [where n = "unat c * unat d"]) simp_all
    have "addDBiasTo3DConvKernel bias c d h w blockIdx blockDim threadIdx conv
        = conv(unat (?iz * h * w + ?iy * w + ?ix)
            := conv (unat (?iz * h * w + ?iy * w + ?ix)) + bias (unat (?iz mod d)))"
      using g by (simp add: addDBiasTo3DConvKernel_def Let_def unat_ucast_32_64)
    then show ?thesis using True
      by (simp add: thread_xyz_def i unat_mod)
  qed
qed


lemma getBlockCount_of_nat:
  assumes "0 < n" and "0 < bs" and "n + bs - 1 < 2 ^ 32"
  shows "getBlockCount rt (of_nat n) (of_nat bs) = Inr (of_nat ((n + bs - 1) div bs))"
    and "unat (of_nat ((n + bs - 1) div bs) :: uint32_t) = (n + bs - 1) div bs"
proof -
  have n: "unat (of_nat n :: uint32_t) = n" and b: "unat (of_nat bs :: uint32_t) = bs"
    using assms by (simp_all add: unat_of_nat)
  have "getBlockCount rt (of_nat n) (of_nat bs)
      = Inr (((of_nat n :: uint32_t) + of_nat bs - 1) div of_nat bs)"
    using assms n b by (intro getBlockCount_asserts) simp_all
  moreover have r: "unat (((of_nat n :: uint32_t) + of_nat bs - 1) div of_nat bs) = (n + bs - 1) div bs"
    using getBlockCount_res [of "of_nat bs" "of_nat n"] assms n b by simp
  moreover have e: "(of_nat ((n + bs - 1) div bs) :: uint32_t)
      = ((of_nat n :: uint32_t) + of_nat bs - 1) div of_nat bs"
    by (simp only: r [symmetric]) simp
  ultimately show "getBlockCount rt (of_nat n) (of_nat bs) = Inr (of_nat ((n + bs - 1) div bs))"
    by (simp only:)
  show "unat (of_nat ((n + bs - 1) div bs) :: uint32_t) = (n + bs - 1) div bs"
    by (simp only: e r)
qed

lemma getBlockCount_16:
  assumes "0 < n" and "n + 15 < 2 ^ 32"
  shows "getBlockCount rt (of_nat n) 16 = Inr (of_nat ((n + 15) div 16))"
    and "unat (of_nat ((n + 15) div 16) :: uint32_t) = (n + 15) div 16"
proof -
  have e: "n + 16 - 1 = n + 15" "(of_nat 16 :: uint32_t) = 16" by simp_all
  have "getBlockCount rt (of_nat n) (of_nat 16) = Inr (of_nat ((n + 16 - 1) div 16))"
    using assms by (intro getBlockCount_of_nat(1)) simp_all
  then show "getBlockCount rt (of_nat n) 16 = Inr (of_nat ((n + 15) div 16))"
    by (simp only: e)
  have "unat (of_nat ((n + 16 - 1) div 16) :: uint32_t) = (n + 16 - 1) div 16"
    using assms by (intro getBlockCount_of_nat(2)) simp_all
  then show "unat (of_nat ((n + 15) div 16) :: uint32_t) = (n + 15) div 16"
    by (simp only: e)
qed

lemma getBlockCount_1:
  assumes "0 < n" and "n < 2 ^ 32"
  shows "getBlockCount rt (of_nat n) 1 = Inr (of_nat n)"
proof -
  have e: "(n + 1 - 1) div 1 = n" "(of_nat 1 :: uint32_t) = 1" by simp_all
  have "getBlockCount rt (of_nat n) (of_nat 1) = Inr (of_nat ((n + 1 - 1) div 1))"
    using assms by (intro getBlockCount_of_nat(1)) simp_all
  then show ?thesis by (simp only: e)
qed

lemma ceil16_covers:
  fixes n :: nat
  shows "n \<le> (n + 15) div 16 * 16" and "(n + 15) div 16 * 16 \<le> n + 15"
proof -
  have "n + 15 < ((n + 15) div 16 + 1) * 16"
    using dividend_less_times_div [of 16 "n + 15"] by (simp add: algebra_simps)
  then show "n \<le> (n + 15) div 16 * 16" by simp
  show "(n + 15) div 16 * 16 \<le> n + 15" by simp
qed

lemma addDBias_grid:
  fixes c d h w gx gy gz :: uint32_t
  assumes nd: "unat c * unat d < 2 ^ 32"
    and tot: "unat c * unat d * unat h * unat w \<le> 2 ^ 32"
    and gx: "unat gx = (unat w + 15) div 16" and gy: "unat gy = (unat h + 15) div 16"
    and gz: "unat gz = unat c * unat d"
    and wb: "unat w + 15 < 2 ^ 32" and hb: "unat h + 15 < 2 ^ 32"
  shows "x < unat w \<Longrightarrow> y < unat h \<Longrightarrow> k < unat c * unat d \<Longrightarrow>
           run_threads (addDBiasTo3DConvKernel bias c d h w) (Dim3 16 16 1)
             (grid_threads (Dim3 gx gy gz) (Dim3 16 16 1)) conv (k * unat h * unat w + y * unat w + x)
           = conv (k * unat h * unat w + y * unat w + x) + bias (k mod unat d)"
    and "unat c * unat d * unat h * unat w \<le> j \<Longrightarrow>
           run_threads (addDBiasTo3DConvKernel bias c d h w) (Dim3 16 16 1)
             (grid_threads (Dim3 gx gy gz) (Dim3 16 16 1)) conv j = conv j"
proof -
  let ?ts = "grid_threads (Dim3 gx gy gz) (Dim3 16 16 1)"
  let ?b = "Dim3 16 16 1"
  note at = addDBiasTo3DConvKernel_at [OF nd tot]
  have g: "unat gx * 16 \<le> 2 ^ 32" "unat gy * 16 \<le> 2 ^ 32"
    using ceil16_covers(2) [of "unat w"] ceil16_covers(2) [of "unat h"] gx gy wb hb by simp_all
  show "run_threads (addDBiasTo3DConvKernel bias c d h w) ?b ?ts conv j = conv j"
    if "unat c * unat d * unat h * unat w \<le> j"
  proof (rule run_threads_untouched)
    fix blockIdx threadIdx and m :: "nat \<Rightarrow> 'a"
    obtain x' y' z' where c: "thread_xyz ?b (blockIdx, threadIdx) = (x', y', z')"
      by (cases "thread_xyz ?b (blockIdx, threadIdx)") auto
    have "j \<noteq> z' * unat h * unat w + y' * unat w + x'"
      if "x' < unat w" "y' < unat h" "z' < unat c * unat d"
      using flat_index_less [OF that] \<open>unat c * unat d * unat h * unat w \<le> j\<close> by simp
    then show "addDBiasTo3DConvKernel bias c d h w blockIdx ?b threadIdx m j = m j"
      by (auto simp: at c)
  qed
  show "run_threads (addDBiasTo3DConvKernel bias c d h w) ?b ?ts conv (k * unat h * unat w + y * unat w + x)
           = conv (k * unat h * unat w + y * unat w + x) + bias (k mod unat d)"
    if x: "x < unat w" and y: "y < unat h" and k: "k < unat c * unat d"
  proof -
    let ?j = "k * unat h * unat w + y * unat w + x"
    have "x < unat gx * 16" "y < unat gy * 16" "k < unat gz"
      using x y k gx gy gz ceil16_covers(1) [of "unat w"] ceil16_covers(1) [of "unat h"]
      by simp_all
    from grid16_ex [OF g this] obtain t0 where
      t0: "t0 \<in> set ?ts" "thread_xyz ?b t0 = (x, y, k)" by blast
    obtain bi ti where p: "t0 = (bi, ti)" by (cases t0) auto
    have "run_threads (addDBiasTo3DConvKernel bias c d h w) ?b ?ts conv ?j
        = (\<lambda>v. v + bias (k mod unat d)) (conv ?j)"
    proof (rule run_threads_single [OF distinct_grid_threads t0(1) [unfolded p]])
      fix m :: "nat \<Rightarrow> 'a"
      show "addDBiasTo3DConvKernel bias c d h w bi ?b ti m ?j = m ?j + bias (k mod unat d)"
        using t0(2) x y k by (simp add: at p)
    next
      fix blockIdx threadIdx and m :: "nat \<Rightarrow> 'a"
      assume a: "(blockIdx, threadIdx) \<in> set ?ts" "(blockIdx, threadIdx) \<noteq> (bi, ti)"
      obtain x' y' z' where c: "thread_xyz ?b (blockIdx, threadIdx) = (x', y', z')"
        by (cases "thread_xyz ?b (blockIdx, threadIdx)") auto
      have "\<not> (x' < unat w \<and> y' < unat h \<and> ?j = z' * unat h * unat w + y' * unat w + x')"
      proof
        assume h: "x' < unat w \<and> y' < unat h \<and> ?j = z' * unat h * unat w + y' * unat w + x'"
        then have "x = x' \<and> y = y' \<and> k = z'"
          using x y by (intro flat_index_unique [of k "unat h" "unat w" y x z' y' x']) simp_all
        then have "thread_xyz ?b (blockIdx, threadIdx) = thread_xyz ?b t0"
          using c t0(2) by simp
        from grid16_inj [OF g a(1) t0(1) this] a(2) p show False by simp
      qed
      then show "addDBiasTo3DConvKernel bias c d h w blockIdx ?b threadIdx m ?j = m ?j"
        by (auto simp: at c)
    qed
    then show ?thesis by simp
  qed
qed


text \<open>
  Claim C3, as amended. For a conv descriptor \<open>[N, D, H, W]\<close> of positive extents whose
  \<open>N * D * H * W\<close> elements are at most \<open>2 ^ 32\<close>, whose grid is within the limits
  (\<open>N * D \<le> 65535\<close>, \<open>ceil (H / 16) \<le> 65535\<close>), with a bias descriptor of rank 5, batch 1
  and depth \<open>D\<close>, and a launch that succeeds: \<^verbatim>\<open>addDBiasTo3DConv\<close> returns success, every
  element \<open>conv[k, y, x]\<close> with \<open>k = n * D + d\<close> is its old value plus \<open>bias[k mod D]\<close>, and
  every element beyond the tensor is unchanged.
\<close>

theorem addDBiasTo3DConv_adds_bias:
  assumes dims: "dims_d conv_dims ! 0 = of_nat N" "dims_d conv_dims ! 1 = of_nat D"
      "dims_d conv_dims ! 2 = of_nat H" "dims_d conv_dims ! 3 = of_nat W"
    and pos: "0 < N" "0 < D" "0 < H" "0 < W"
    and lim: "N * D \<le> 65535" "(H + 15) div 16 \<le> 65535" "W < 2 ^ 31" "N * D * H * W \<le> 2 ^ 32"
    and descr: "nbDims bias_dims = 5" "nbDims conv_dims = 4" "dims_d bias_dims ! 0 = 1"
      "dims_d bias_dims ! 2 = of_nat D"
    and ok: "lastError rt (length (launched st))
               (Dim3 (of_nat ((W + 15) div 16)) (of_nat ((H + 15) div 16)) (of_nat (N * D)))
               (Dim3 16 16 1) = cudaSuccess"
      "ndebug rt \<or> streamSynchronize rt (length (launched st)) = cudaSuccess"
  shows "fst (addDBiasTo3DConv rt bias bias_dims conv_dims st) = Inr cudaSuccess
     \<and> (\<forall>n<N. \<forall>dd<D. \<forall>y<H. \<forall>x<W.
          buf (snd (addDBiasTo3DConv rt bias bias_dims conv_dims st)) ((n * D + dd) * H * W + y * W + x)
          = buf st ((n * D + dd) * H * W + y * W + x) + bias ((n * D + dd) mod D))
     \<and> (\<forall>j. N * D * H * W \<le> j \<longrightarrow>
          buf (snd (addDBiasTo3DConv rt bias bias_dims conv_dims st)) j = buf st j)"
proof -
  let ?c = "of_nat N :: uint32_t" and ?d = "of_nat D :: uint32_t"
  let ?h = "of_nat H :: uint32_t" and ?w = "of_nat W :: uint32_t"
  let ?gx = "of_nat ((W + 15) div 16) :: uint32_t"
  let ?gy = "of_nat ((H + 15) div 16) :: uint32_t"
  let ?gz = "of_nat (N * D) :: uint32_t"
  have "N \<le> N * D" using pos(2) by (cases D) simp_all
  then have "N \<le> 65535" using lim(1) by (rule order_trans)
  moreover have "D \<le> N * D" using pos(1) by (cases N) simp_all
  then have "D \<le> 65535" using lim(1) by (rule order_trans)
  ultimately have NDb: "N < 2 ^ 32" "D < 2 ^ 32" by simp_all
  have Hb: "H \<le> 1048560"
    using ceil16_covers(1) [of H] lim(2) by simp
  have u: "unat ?c = N" "unat ?d = D" "unat ?h = H" "unat ?w = W"
    using NDb lim(3) Hb by (simp_all add: unat_of_nat)
  have wb: "W + 15 < 2 ^ 32" "H + 15 < 2 ^ 32" using lim(3) Hb by simp_all
  have nd: "N * D < 2 ^ 32" using lim(1) by simp
  have gx: "getBlockCount rt ?w 16 = Inr ?gx" "unat ?gx = (W + 15) div 16"
    using pos(4) wb(1) by (rule getBlockCount_16)+
  have gy: "getBlockCount rt ?h 16 = Inr ?gy" "unat ?gy = (H + 15) div 16"
    using pos(3) wb(2) by (rule getBlockCount_16)+
  have "0 < N * D" using pos by simp
  then have "getBlockCount rt ?gz 1 = Inr ?gz" using nd by (rule getBlockCount_1)
  then have gz1: "getBlockCount rt (?c * ?d) 1 = Inr ?gz"
    by simp
  have gz2: "unat ?gz = N * D"
    using nd by (simp only: unat_of_nat) simp
  note gz = gz1 gz2
  have a: "?gy \<le> kMaxGridSizeY" "?gz \<le> kMaxGridSizeZ"
    using gy(2) gz(2) lim by (simp_all only: word_le_nat_alt kMaxGridSizeY_def kMaxGridSizeZ_def) simp_all
  have r: "addDBiasTo3DConv rt bias bias_dims conv_dims st =
      (Inr cudaSuccess,
       \<lparr>buf = run_threads (addDBiasTo3DConvKernel bias ?c ?d ?h ?w) (Dim3 16 16 1)
                (grid_threads (Dim3 ?gx ?gy ?gz) (Dim3 16 16 1)) (buf st),
         launched = launched st @ [''addDBiasTo3DConvKernel''], last_error = cudaSuccess\<rparr>)"
    using dims descr ok gx(1) gy(1) gz(1) a
    by (auto simp add: addDBiasTo3DConv_def launch_def CHECKK_def Let_def
        simp del: of_nat_mult of_nat_add)
  note g = addDBias_grid [where c = ?c and d = ?d and h = ?h and w = ?w and gx = ?gx and gy = ?gy
      and gz = ?gz and bias = bias and conv = "buf st", unfolded u]
  note g1 = g(1) [OF nd lim(4) gx(2) gy(2) gz(2) wb]
  note g2 = g(2) [OF nd lim(4) gx(2) gy(2) gz(2) wb]
  have k: "n * D + dd < N * D" if "n < N" "dd < D" for n dd
  proof -
    have "n * D + dd < (n + 1) * D" using that(2) by simp
    also have "\<dots> \<le> N * D" using that(1) by (intro mult_le_mono1) simp
    finally show ?thesis .
  qed
  show ?thesis
  proof (intro conjI allI impI)
    show "fst (addDBiasTo3DConv rt bias bias_dims conv_dims st) = Inr cudaSuccess"
      by (simp add: r)
  next
    fix n dd y x assume "n < N" "dd < D" "y < H" "x < W"
    then show "buf (snd (addDBiasTo3DConv rt bias bias_dims conv_dims st)) ((n * D + dd) * H * W + y * W + x)
          = buf st ((n * D + dd) * H * W + y * W + x) + bias ((n * D + dd) mod D)"
      using g1 [of x y "n * D + dd"] k [of n dd] by (simp add: r del: of_nat_mult of_nat_add)
  next
    fix j assume "N * D * H * W \<le> j"
    then show "buf (snd (addDBiasTo3DConv rt bias bias_dims conv_dims st)) j = buf st j"
      using g2 [of j] by (simp add: r del: of_nat_mult of_nat_add)
  qed
qed


text \<open>The flat index of the kernel is a 32-bit value: nothing is written from \<open>2 ^ 32\<close> on.\<close>

lemma addDBiasTo3DConvKernel_below_2_32:
  assumes "2 ^ 32 \<le> j"
  shows "addDBiasTo3DConvKernel bias c d h w blockIdx blockDim threadIdx conv j = conv j"
proof -
  have "j \<noteq> unat (v :: uint32_t)" for v
  proof -
    have "unat v < 2 ^ 32" using unsigned_less [of v] by simp
    then show ?thesis using assms by simp
  qed
  then show ?thesis
    by (simp add: addDBiasTo3DConvKernel_def Let_def unat_ucast_32_64)
qed

lemma addDBiasTo3DConv_below_2_32:
  assumes "2 ^ 32 \<le> j"
  shows "buf (snd (addDBiasTo3DConv rt bias bias_dims conv_dims st)) j = buf st j"
proof -
  have "run_threads (addDBiasTo3DConvKernel bias c d h w) b ts (buf st) j = buf st j" for c d h w b ts
    by (rule run_threads_untouched) (rule addDBiasTo3DConvKernel_below_2_32 [OF assms])
  then show ?thesis
    by (simp add: addDBiasTo3DConv_def launch_def Let_def split: sum.splits)
qed

theorem addDBiasTo3DConv_adds_bias_witness:
  "fst (addDBiasTo3DConv debug_ok twos (dims_of 5 [1, 1, 2, 1, 1]) (dims_of 4 [1, 2, 1, 1]) idle)
     = Inr cudaSuccess
   \<and> buf (snd (addDBiasTo3DConv debug_ok twos (dims_of 5 [1, 1, 2, 1, 1]) (dims_of 4 [1, 2, 1, 1]) idle))
       ((0 * 2 + 1) * 1 * 1 + 0 * 1 + 0)
     = buf idle ((0 * 2 + 1) * 1 * 1 + 0 * 1 + 0) + twos ((0 * 2 + 1) mod 2)
   \<and> buf (snd (addDBiasTo3DConv debug_ok twos (dims_of 5 [1, 1, 2, 1, 1]) (dims_of 4 [1, 2, 1, 1]) idle)) 2
     = buf idle 2"
proof -
  have t: "fst (addDBiasTo3DConv debug_ok twos (dims_of 5 [1, 1, 2, 1, 1]) (dims_of 4 [1, 2, 1, 1]) idle)
     = Inr cudaSuccess
   \<and> (\<forall>n<1. \<forall>dd<2. \<forall>y<1. \<forall>x<1.
        buf (snd (addDBiasTo3DConv debug_ok twos (dims_of 5 [1, 1, 2, 1, 1]) (dims_of 4 [1, 2, 1, 1]) idle))
          ((n * 2 + dd) * 1 * 1 + y * 1 + x)
        = buf idle ((n * 2 + dd) * 1 * 1 + y * 1 + x) + twos ((n * 2 + dd) mod 2))
   \<and> (\<forall>j. 1 * 2 * 1 * 1 \<le> j \<longrightarrow>
        buf (snd (addDBiasTo3DConv debug_ok twos (dims_of 5 [1, 1, 2, 1, 1]) (dims_of 4 [1, 2, 1, 1]) idle)) j
        = buf idle j)"
    by (rule addDBiasTo3DConv_adds_bias) (simp_all add: dims_of_def debug_ok_def)
  from t [THEN conjunct2, THEN conjunct1, rule_format, of 0 1 0 0]
    t [THEN conjunct2, THEN conjunct2, rule_format, of 2] t [THEN conjunct1]
  show ?thesis by simp
qed

text \<open>
  Claim C3 as it is written holds for every shape. With \<open>[N, D, H, W] = [1, 2, 2, 2 ^ 30 + 1]\<close>
  the tensor has \<open>2 ^ 32 + 4\<close> elements and the grid is within the limits; the element
  \<open>conv[1, 1, 2 ^ 30]\<close> has the flat index \<open>2 ^ 32 + 3\<close>, which no thread can write: it stays 0
  where the claim gives 1, and the operation returns success.
\<close>

theorem addDBiasTo3DConv_index_wraps:
  "buf (snd (addDBiasTo3DConv release_ok ones (dims_of 5 [1, 1, 2, 1, 1])
              (dims_of 4 [1, 2, 2, 1073741825]) idle)) (1 * 2 * 1073741825 + 1 * 1073741825 + 1073741824)
     = 0
   \<and> buf idle (1 * 2 * 1073741825 + 1 * 1073741825 + 1073741824) + ones (1 mod 2) = 1
   \<and> fst (addDBiasTo3DConv release_ok ones (dims_of 5 [1, 1, 2, 1, 1])
            (dims_of 4 [1, 2, 2, 1073741825]) idle) = Inr cudaSuccess"
proof -
  have "fst (addDBiasTo3DConv release_ok ones (dims_of 5 [1, 1, 2, 1, 1])
            (dims_of 4 [1, 2, 2, 1073741825]) idle) = Inr cudaSuccess"
    by (simp add: addDBiasTo3DConv_def getBlockCount_def release_ok_def dims_of_def launch_def
        CHECKK_def Let_def)
  moreover
  have "(2 :: nat) ^ 32 \<le> 1 * 2 * 1073741825 + 1 * 1073741825 + 1073741824" by simp
  from addDBiasTo3DConv_below_2_32 [OF this, of release_ok ones "dims_of 5 [1, 1, 2, 1, 1]"
      "dims_of 4 [1, 2, 2, 1073741825]" idle]
  have "buf (snd (addDBiasTo3DConv release_ok ones (dims_of 5 [1, 1, 2, 1, 1])
              (dims_of 4 [1, 2, 2, 1073741825]) idle)) (1 * 2 * 1073741825 + 1 * 1073741825 + 1073741824)
     = 0
   \<and> buf idle (1 * 2 * 1073741825 + 1 * 1073741825 + 1073741824) + ones (1 mod 2) = 1"
    by (simp add: idle_def ones_def)
  ultimately show ?thesis by simp
qed

section \<open>The two kernels of the cost volume\<close>

lemma copy_loop_at:
  assumes "sint disp - sint idst = int n" and "unat pdst + n * unat stride < 2 ^ 64"
  shows "copy_loop val stride disp idst pdst dst j =
           (if \<exists>k<n. j = unat pdst + k * unat stride then val else dst j)"
  using assms
proof (induction n arbitrary: idst pdst dst)
  case 0
  then have "\<not> idst <s disp" by (simp add: word_sless_alt)
  then show ?case by (subst copy_loop.simps) simp
next
  case (Suc n)
  then have lt: "idst <s disp" by (simp add: word_sless_alt)
  have s: "sint disp - sint (idst + 1) = int n"
    using Suc.prems(1) sint_succ_less [OF lt] by simp
  have "unat pdst + unat stride \<le> unat pdst + Suc n * unat stride" by simp
  then have "unat pdst + unat stride < 2 ^ 64" using Suc.prems(2) by simp
  then have u: "unat (pdst + stride) = unat pdst + unat stride"
    by (simp add: unat_add_lem [THEN iffD1])
  have b: "unat (pdst + stride) + n * unat stride < 2 ^ 64"
    using Suc.prems(2) u by simp
  have e: "(\<exists>k<Suc n. j = unat pdst + k * unat stride)
         \<longleftrightarrow> j = unat pdst \<or> (\<exists>k<n. j = unat pdst + unat stride + k * unat stride)"
  proof
    assume "\<exists>k<Suc n. j = unat pdst + k * unat stride"
    then obtain k where k: "k < Suc n" "j = unat pdst + k * unat stride" by blast
    show "j = unat pdst \<or> (\<exists>k<n. j = unat pdst + unat stride + k * unat stride)"
    proof (cases k)
      case 0
      then show ?thesis using k by simp
    next
      case (Suc k')
      then have "k' < n" "j = unat pdst + unat stride + k' * unat stride" using k by simp_all
      then show ?thesis by blast
    qed
  next
    assume "j = unat pdst \<or> (\<exists>k<n. j = unat pdst + unat stride + k * unat stride)"
    then show "\<exists>k<Suc n. j = unat pdst + k * unat stride"
    proof
      assume "j = unat pdst"
      then have "0 < Suc n \<and> j = unat pdst + 0 * unat stride" by simp
      then show ?thesis by blast
    next
      assume "\<exists>k<n. j = unat pdst + unat stride + k * unat stride"
      then obtain k where "k < n" "j = unat pdst + unat stride + k * unat stride" by blast
      then have "Suc k < Suc n \<and> j = unat pdst + Suc k * unat stride" by simp
      then show ?thesis by blast
    qed
  qed
  have "copy_loop val stride disp idst pdst dst j
      = copy_loop val stride disp (idst + 1) (pdst + stride) (dst(unat pdst := val)) j"
    using lt by (subst copy_loop.simps) simp
  also have "\<dots> = (if \<exists>k<n. j = unat (pdst + stride) + k * unat stride then val
                   else (dst(unat pdst := val)) j)"
    by (rule Suc.IH [OF s b])
  also have "\<dots> = (if j = unat pdst \<or> (\<exists>k<n. j = unat pdst + unat stride + k * unat stride)
                   then val else dst j)"
    unfolding u by (cases "j = unat pdst") (simp_all only: fun_upd_apply if_True if_False simp_thms if_cancel)
  also have "\<dots> = (if \<exists>k<Suc n. j = unat pdst + k * unat stride then val else dst j)"
    by (simp only: e)
  finally show ?case .
qed


lemma steps_Suc_iff:
  fixes j p s n :: nat
  shows "(\<exists>k<Suc n. j = p + k * s) \<longleftrightarrow> j = p \<or> (\<exists>k<n. j = p + s + k * s)"
proof
  assume "\<exists>k<Suc n. j = p + k * s"
  then obtain k where k: "k < Suc n" "j = p + k * s" by blast
  show "j = p \<or> (\<exists>k<n. j = p + s + k * s)"
  proof (cases k)
    case 0
    then show ?thesis using k by simp
  next
    case (Suc k')
    then have "k' < n" "j = p + s + k' * s" using k by simp_all
    then show ?thesis by blast
  qed
next
  assume "j = p \<or> (\<exists>k<n. j = p + s + k * s)"
  then show "\<exists>k<Suc n. j = p + k * s"
  proof
    assume "j = p"
    then have "0 < Suc n \<and> j = p + 0 * s" by simp
    then show ?thesis by blast
  next
    assume "\<exists>k<n. j = p + s + k * s"
    then obtain k where "k < n" "j = p + s + k * s" by blast
    then have "Suc k < Suc n \<and> j = p + Suc k * s" by simp
    then show ?thesis by blast
  qed
qed

lemma pad_loop_at:
  assumes "sint disp - sint pad = int n" and "0 < unat stride"
    and "unat pdst + n * unat stride < 2 ^ 64"
  shows "pad_loop src ix isrc stride disp pad pdst dst j =
           (if \<exists>k<n. j = unat pdst + k * unat stride
            then (if ix < pad + of_nat ((j - unat pdst) div unat stride) then 0
                  else src (unat (isrc - scast (pad + of_nat ((j - unat pdst) div unat stride)))))
            else dst j)"
  using assms
proof (induction n arbitrary: pad pdst dst)
  case 0
  then have "\<not> pad <s disp" by (simp add: word_sless_alt)
  then show ?case by (subst pad_loop.simps) simp
next
  case (Suc n)
  define V where "V p = (if ix < p then 0 else src (unat (isrc - scast p)))" for p :: int32_t
  have lt: "pad <s disp" using Suc.prems(1) by (simp add: word_sless_alt)
  have s: "sint disp - sint (pad + 1) = int n"
    using Suc.prems(1) sint_succ_less [OF lt] by simp
  have "unat pdst + unat stride \<le> unat pdst + Suc n * unat stride" by simp
  then have "unat pdst + unat stride < 2 ^ 64" using Suc.prems(3) by simp
  then have u: "unat (pdst + stride) = unat pdst + unat stride"
    by (simp add: unat_add_lem [THEN iffD1])
  have b: "unat (pdst + stride) + n * unat stride < 2 ^ 64"
    using Suc.prems(3) u by simp
  define R where "R \<longleftrightarrow> (\<exists>k<n. j = unat pdst + unat stride + k * unat stride)"
  define S where "S \<longleftrightarrow> (\<exists>k<Suc n. j = unat pdst + k * unat stride)"
  have SR: "S \<longleftrightarrow> j = unat pdst \<or> R"
    unfolding S_def R_def by (rule steps_Suc_iff)
  have "pad_loop src ix isrc stride disp pad pdst dst j
      = pad_loop src ix isrc stride disp (pad + 1) (pdst + stride) (dst(unat pdst := V pad)) j"
    using lt by (subst pad_loop.simps) (simp add: V_def)
  also have "\<dots> = (if \<exists>k<n. j = unat (pdst + stride) + k * unat stride
                   then V (pad + 1 + of_nat ((j - unat (pdst + stride)) div unat stride))
                   else (dst(unat pdst := V pad)) j)"
    unfolding V_def by (rule Suc.IH [OF s Suc.prems(2) b])
  also have "\<dots> = (if R then V (pad + 1 + of_nat ((j - (unat pdst + unat stride)) div unat stride))
                   else (dst(unat pdst := V pad)) j)"
    by (simp only: u R_def)
  also have "\<dots> = (if S then V (pad + of_nat ((j - unat pdst) div unat stride)) else dst j)"
  proof (cases "j = unat pdst")
    case True
    have "\<not> R"
    proof
      assume R
      then obtain k where "j = unat pdst + unat stride + k * unat stride"
        unfolding R_def by blast
      then show False using True Suc.prems(2) by simp
    qed
    moreover have S using True SR by simp
    moreover have "(j - unat pdst) div unat stride = 0" using True by simp
    then have "V (pad + of_nat ((j - unat pdst) div unat stride)) = V pad" by simp
    moreover have "(dst(unat pdst := V pad)) j = V pad" using True by simp
    ultimately show ?thesis by (simp only: if_True if_False)
  next
    case False
    show ?thesis
    proof (cases R)
      case True
      then obtain k where k: "k < n" "j = unat pdst + unat stride + k * unat stride"
        unfolding R_def by blast
      have "(j - (unat pdst + unat stride)) div unat stride = k"
        using k(2) Suc.prems(2) by simp
      moreover have "(j - unat pdst) div unat stride = Suc k"
      proof -
        have "j - unat pdst = Suc k * unat stride" using k(2) by simp
        then show ?thesis using Suc.prems(2) by simp
      qed
      moreover have "pad + 1 + of_nat k = pad + of_nat (Suc k)" by simp
      moreover have S using True SR by simp
      ultimately show ?thesis using True by (simp only: if_True)
    next
      case F2: False
      then have "\<not> S" using False SR by simp
      moreover have "(dst(unat pdst := V pad)) j = dst j" using False by simp
      ultimately show ?thesis using F2 by (simp only: if_False)
    qed
  qed
  finally have "pad_loop src ix isrc stride disp pad pdst dst j
      = (if S then V (pad + of_nat ((j - unat pdst) div unat stride)) else dst j)" .
  then show ?case unfolding V_def S_def .
qed


lemma sint_small:
  fixes v :: int32_t
  assumes "unat v < 2 ^ 31"
  shows "sint v = int (unat v)"
proof -
  have "int (unat v) < 2 ^ 31" using assms by (simp only: zless_nat_eq_int_zless [symmetric]) simp
  moreover have "- (2 ^ 31) \<le> int (unat v)"
  proof -
    have "- (2 ^ 31) \<le> (0 :: int)" by simp
    also have "0 \<le> int (unat v)" by (rule of_nat_0_le_iff)
    finally show ?thesis .
  qed
  ultimately have "signed_take_bit 31 (int (unat v)) = int (unat v)"
    by (intro signed_take_bit_int_eq_self)
  moreover have "sint v = signed_take_bit 31 (uint v)" by (simp add: sint_uint)
  moreover have "uint v = int (unat v)" by (rule uint_nat)
  ultimately show ?thesis by (simp only:)
qed

lemma unat_scast_small:
  fixes v :: int32_t
  assumes "unat v < 2 ^ 31"
  shows "unat (scast v :: size_t) = unat v"
proof -
  have "(scast v :: size_t) = word_of_int (sint v)" by (rule scast_eq)
  also have "\<dots> = word_of_int (uint v)"
    using sint_small [OF assms] by (simp only: uint_nat)
  also have "\<dots> = ucast v" by (rule ucast_eq [symmetric])
  finally show ?thesis by (simp add: unat_ucast_32_64)
qed

lemma volume_unat:
  fixes c h w :: uint32_t
  assumes "unat c * unat h * unat w < 2 ^ 32"
  shows "unat (c * h * w) = unat c * unat h * unat w"
proof -
  have "c * h * w = of_nat (unat c * unat h * unat w)" by simp
  then have "unat (c * h * w) = (unat c * unat h * unat w) mod 2 ^ 32"
    by (simp only: unat_of_nat) simp
  then show ?thesis using assms by simp
qed

lemma twice_volume_unat:
  fixes c h w :: uint32_t
  assumes "2 * unat c * unat h * unat w < 2 ^ 32"
  shows "unat (2 * c * h * w) = 2 * unat c * unat h * unat w"
proof -
  have "2 * c * h * w = of_nat (2 * unat c * unat h * unat w)" by simp
  then have "unat (2 * c * h * w) = (2 * unat c * unat h * unat w) mod 2 ^ 32"
    by (simp only: unat_of_nat) simp
  then show ?thesis using assms by simp
qed


lemma loop_range_bound:
  fixes i n s :: nat
  assumes "i < 2 ^ 32" and "n < 2 ^ 31" and "s < 2 ^ 32"
  shows "i + n * s < 2 ^ 64"
proof -
  have "n * s \<le> 2 ^ 31 * 2 ^ 32" using assms(2,3) by (intro mult_mono) simp_all
  then have "n * s \<le> 9223372036854775808" by simp
  moreover have "i < 4294967296" using assms(1) by simp
  ultimately have "i + n * s < 18446744073709551616" by linarith
  then show ?thesis by simp
qed

lemma costVolumeCopyKernel_at:
  fixes c h w disp :: int32_t
  assumes vol: "2 * unat c * unat h * unat w < 2 ^ 31" and disp: "0 \<le> sint disp"
  shows "costVolumeCopyKernel src c h w disp blockIdx blockDim threadIdx dst j =
     (case thread_xyz blockDim (blockIdx, threadIdx) of (x, y, z) \<Rightarrow>
        if x < unat w \<and> y < unat h \<and> z < unat c
           \<and> (\<exists>k<nat (sint disp). j = (z * unat h * unat w + y * unat w + x)
                                        + k * (2 * unat c * unat h * unat w))
        then src (z * unat h * unat w + y * unat w + x) else dst j)"
proof -
  let ?ix = "dim_x blockIdx * dim_x blockDim + dim_x threadIdx"
  let ?iy = "dim_y blockIdx * dim_y blockDim + dim_y threadIdx"
  let ?iz = "dim_z blockIdx * dim_z blockDim + dim_z threadIdx"
  show ?thesis
  proof (cases "unat ?ix < unat w \<and> unat ?iy < unat h \<and> unat ?iz < unat c")
    case False
    then have "w \<le> ?ix \<or> h \<le> ?iy \<or> c \<le> ?iz"
      by (auto simp: word_le_nat_alt)
    then show ?thesis using False
      by (auto simp: costVolumeCopyKernel_def thread_xyz_def Let_def)
  next
    case True
    let ?I = "unat ?iz * unat h * unat w + unat ?iy * unat w + unat ?ix"
    let ?S = "2 * unat c * unat h * unat w"
    have g: "\<not> (w \<le> ?ix \<or> h \<le> ?iy \<or> c \<le> ?iz)"
      using True by (auto simp: word_le_nat_alt)
    have v32: "unat c * unat h * unat w \<le> 2 ^ 32" using vol by simp
    have i: "unat (ucast (?iz * h * w + ?iy * w + ?ix) :: size_t) = ?I"
      using True v32 by (simp only: unat_ucast_32_64) (intro flat_index_unat [where n = "unat c"], simp_all)
    have "?S < 2 ^ 32" using vol by simp
    then have "unat (2 * c * h * w) = ?S" by (rule twice_volume_unat)
    then have st: "unat (scast (2 * c * h * w) :: size_t) = ?S"
      using vol by (simp add: unat_scast_small)
    have n: "sint disp - sint (0 :: int32_t) = int (nat (sint disp))" using disp by simp
    have Ib: "?I < 2 ^ 32"
      using flat_index_less [of "unat ?ix" "unat w" "unat ?iy" "unat h" "unat ?iz" "unat c"] True v32
      by simp
    have nb: "nat (sint disp) < 2 ^ 31" using sint_lt [of disp] by simp
    have b: "unat (ucast (?iz * h * w + ?iy * w + ?ix) :: size_t)
                + nat (sint disp) * unat (scast (2 * c * h * w) :: size_t) < 2 ^ 64"
      using loop_range_bound [OF Ib nb \<open>?S < 2 ^ 32\<close>] by (simp only: i st)
    have "costVolumeCopyKernel src c h w disp blockIdx blockDim threadIdx dst j
        = copy_loop (src ?I) (scast (2 * c * h * w)) disp 0 (ucast (?iz * h * w + ?iy * w + ?ix)) dst j"
      using g by (simp add: costVolumeCopyKernel_def Let_def i)
    also have "\<dots> = (if \<exists>k<nat (sint disp). j = ?I + k * ?S then src ?I else dst j)"
      using copy_loop_at [OF n b, of "src ?I" dst j] by (simp only: i st)
    finally show ?thesis using True by (simp add: thread_xyz_def)
  qed
qed


lemma costVolumeCopyPadKernel_at:
  fixes c h w disp :: int32_t
  assumes vol: "2 * unat c * unat h * unat w < 2 ^ 31" and disp: "0 \<le> sint disp"
  shows "costVolumeCopyPadKernel src c h w disp blockIdx blockDim threadIdx dst j =
     (case thread_xyz blockDim (blockIdx, threadIdx) of (x, y, z) \<Rightarrow>
        if x < unat w \<and> y < unat h \<and> z < unat c
           \<and> (\<exists>k<nat (sint disp). j = (z * unat h * unat w + y * unat w + x)
                                        + unat c * unat h * unat w
                                        + k * (2 * unat c * unat h * unat w))
        then (if x < (j - (z * unat h * unat w + y * unat w + x + unat c * unat h * unat w))
                      div (2 * unat c * unat h * unat w)
              then 0
              else src (z * unat h * unat w + y * unat w + x
                        - (j - (z * unat h * unat w + y * unat w + x + unat c * unat h * unat w))
                            div (2 * unat c * unat h * unat w)))
        else dst j)"
proof -
  let ?ix = "dim_x blockIdx * dim_x blockDim + dim_x threadIdx"
  let ?iy = "dim_y blockIdx * dim_y blockDim + dim_y threadIdx"
  let ?iz = "dim_z blockIdx * dim_z blockDim + dim_z threadIdx"
  show ?thesis
  proof (cases "unat ?ix < unat w \<and> unat ?iy < unat h \<and> unat ?iz < unat c")
    case False
    then have "w \<le> ?ix \<or> h \<le> ?iy \<or> c \<le> ?iz"
      by (auto simp: word_le_nat_alt)
    then show ?thesis using False
      by (auto simp: costVolumeCopyPadKernel_def thread_xyz_def Let_def)
  next
    case True
    let ?I = "unat ?iz * unat h * unat w + unat ?iy * unat w + unat ?ix"
    let ?V = "unat c * unat h * unat w"
    let ?S = "2 * unat c * unat h * unat w"
    let ?isrc = "ucast (?iz * h * w + ?iy * w + ?ix) :: size_t"
    let ?st = "scast (c * h * w) :: size_t"
    let ?n = "nat (sint disp)"
    have g: "\<not> (w \<le> ?ix \<or> h \<le> ?iy \<or> c \<le> ?iz)"
      using True by (auto simp: word_le_nat_alt)
    have S2: "?S = 2 * ?V" by simp
    have Vb: "?V < 2 ^ 30" using vol by simp
    have v32: "?V \<le> 2 ^ 32" "?V < 2 ^ 32" "?V < 2 ^ 31" using Vb by simp_all
    have i: "unat ?isrc = ?I"
      using True v32(1) by (simp only: unat_ucast_32_64) (intro flat_index_unat [where n = "unat c"], simp_all)
    have IV: "?I < ?V"
      using flat_index_less [of "unat ?ix" "unat w" "unat ?iy" "unat h" "unat ?iz" "unat c"] True
      by simp
    have "unat (c * h * w) = ?V" using v32(2) by (rule volume_unat)
    then have st: "unat ?st = ?V" using v32(3) by (simp add: unat_scast_small)
    have idst: "unat (?isrc + ?st) = ?I + ?V"
    proof -
      have "unat ?isrc + unat ?st < 2 ^ LENGTH(64)" using IV Vb by (simp only: i st) simp
      then have "unat (?isrc + ?st) = unat ?isrc + unat ?st"
        by (rule unat_add_lem [THEN iffD1])
      then show ?thesis by (simp only: i st)
    qed
    have st2: "unat (?st * 2) = ?S"
    proof -
      have "unat ?st * unat (2 :: size_t) < 2 ^ LENGTH(64)" using Vb by (simp only: st) simp
      then have "unat (?st * 2) = unat ?st * unat (2 :: size_t)"
        by (rule unat_mult_lem [THEN iffD1])
      then show ?thesis by (simp add: st)
    qed
    have Spos: "0 < unat (?st * 2)" using IV by (simp only: st2)
    have n: "sint disp - sint (0 :: int32_t) = int ?n" using disp by simp
    have nb: "?n < 2 ^ 31" using sint_lt [of disp] by simp
    have "?I + ?V < 2 ^ 32" "?S < 2 ^ 32" using IV Vb by simp_all
    from loop_range_bound [OF this(1) nb this(2)]
    have b: "unat (?isrc + ?st) + ?n * unat (?st * 2) < 2 ^ 64"
      by (simp only: idst st2)
    have "costVolumeCopyPadKernel src c h w disp blockIdx blockDim threadIdx dst j
        = pad_loop src ?ix ?isrc (?st * 2) disp 0 (?isrc + ?st) dst j"
      using g by (simp add: costVolumeCopyPadKernel_def Let_def)
    also have "\<dots> = (if \<exists>k<?n. j = unat (?isrc + ?st) + k * unat (?st * 2)
            then (if ?ix < 0 + of_nat ((j - unat (?isrc + ?st)) div unat (?st * 2)) then 0
                  else src (unat (?isrc - scast (0 + of_nat ((j - unat (?isrc + ?st)) div unat (?st * 2)) :: int32_t))))
            else dst j)"
      by (rule pad_loop_at [OF n Spos b])
    also have "\<dots> = (if \<exists>k<?n. j = ?I + ?V + k * ?S
            then (if unat ?ix < (j - (?I + ?V)) div ?S then 0
                  else src (?I - (j - (?I + ?V)) div ?S))
            else dst j)"
    proof (cases "\<exists>k<?n. j = ?I + ?V + k * ?S")
      case False
      then show ?thesis by (simp only: idst st2 if_False)
    next
      case T: True
      then obtain k where k: "k < ?n" "j = ?I + ?V + k * ?S" by blast
      have "0 < unat c" "0 < unat h" "0 < unat w" using True by auto
      then have "0 < ?S" by simp
      then have kk: "(j - (?I + ?V)) div ?S = k" using k(2) by simp
      have k31: "k < 2 ^ 31" using k(1) nb by simp
      then have uk: "unat (of_nat k :: int32_t) = k" by (simp add: unat_of_nat)
      have lt: "?ix < of_nat k \<longleftrightarrow> unat ?ix < k"
        by (simp only: word_less_nat_alt uk)
      have sub: "unat (?isrc - scast (of_nat k :: int32_t)) = ?I - k" if "\<not> unat ?ix < k"
      proof -
        have sk: "unat (scast (of_nat k :: int32_t) :: size_t) = k"
          using k31 by (simp add: unat_scast_small uk)
        have "k \<le> ?I" using that by simp
        then have "(scast (of_nat k :: int32_t) :: size_t) \<le> ?isrc"
          by (simp only: word_le_nat_alt sk i)
        then have "unat (?isrc - scast (of_nat k :: int32_t)) = unat ?isrc - unat (scast (of_nat k :: int32_t) :: size_t)"
          by (rule unat_sub)
        then show ?thesis by (simp only: sk i)
      qed
      show ?thesis
        using T sub by (simp only: idst st2 kk if_True add_0 lt split: if_splits) auto
    qed
    finally show ?thesis using True by (simp add: thread_xyz_def)
  qed
qed


lemma run_threads_local:
  assumes "\<And>blockIdx threadIdx m m'. m j = m' j \<Longrightarrow>
             kern blockIdx b threadIdx m j = kern blockIdx b threadIdx m' j"
    and "dst j = dst' j"
  shows "run_threads kern b ts dst j = run_threads kern b ts dst' j"
  using assms(2) unfolding run_threads_def
proof (induction ts arbitrary: dst dst')
  case Nil
  then show ?case by simp
next
  case (Cons t ts)
  obtain bi ti where t: "t = (bi, ti)" by (cases t) auto
  have "kern bi b ti dst j = kern bi b ti dst' j" using Cons.prems by (rule assms(1))
  then show ?case using Cons.IH [of "kern bi b ti dst" "kern bi b ti dst'"] by (simp add: t)
qed

lemma halves_disjoint:
  fixes i i' k k' v :: nat
  assumes "i < v" and "i' < v"
  shows "i + k * (2 * v) \<noteq> i' + v + k' * (2 * v)"
proof
  assume "i + k * (2 * v) = i' + v + k' * (2 * v)"
  then have "k * (2 * v) + i = k' * (2 * v) + (i' + v)" by simp
  moreover have "i < 2 * v" "i' + v < 2 * v" using assms by simp_all
  ultimately have "i = i' + v" by (rule mixed_radix_unique(2))
  then show False using assms(1) by simp
qed

lemma costVolumeCopyKernel_frame:
  fixes c h w disp :: int32_t
  assumes vol: "2 * unat c * unat h * unat w < 2 ^ 31" and disp: "0 \<le> sint disp"
    and "\<And>k i. k < nat (sint disp) \<Longrightarrow> i < unat c * unat h * unat w
           \<Longrightarrow> j \<noteq> i + k * (2 * unat c * unat h * unat w)"
  shows "costVolumeCopyKernel src c h w disp blockIdx blockDim threadIdx dst j = dst j"
proof -
  obtain x y z where t: "thread_xyz blockDim (blockIdx, threadIdx) = (x, y, z)"
    by (cases "thread_xyz blockDim (blockIdx, threadIdx)") auto
  have "\<not> (x < unat w \<and> y < unat h \<and> z < unat c
           \<and> (\<exists>k<nat (sint disp). j = (z * unat h * unat w + y * unat w + x)
                                        + k * (2 * unat c * unat h * unat w)))"
  proof
    assume a: "x < unat w \<and> y < unat h \<and> z < unat c
           \<and> (\<exists>k<nat (sint disp). j = (z * unat h * unat w + y * unat w + x)
                                        + k * (2 * unat c * unat h * unat w))"
    then have "z * unat h * unat w + y * unat w + x < unat c * unat h * unat w"
      by (intro flat_index_less) simp_all
    then show False using a assms(3) by blast
  qed
  then show ?thesis
    by (simp only: costVolumeCopyKernel_at [OF vol disp] t prod.case if_False)
qed

lemma costVolumeCopyPadKernel_frame:
  fixes c h w disp :: int32_t
  assumes vol: "2 * unat c * unat h * unat w < 2 ^ 31" and disp: "0 \<le> sint disp"
    and "\<And>k i. k < nat (sint disp) \<Longrightarrow> i < unat c * unat h * unat w
           \<Longrightarrow> j \<noteq> i + unat c * unat h * unat w + k * (2 * unat c * unat h * unat w)"
  shows "costVolumeCopyPadKernel src c h w disp blockIdx blockDim threadIdx dst j = dst j"
proof -
  obtain x y z where t: "thread_xyz blockDim (blockIdx, threadIdx) = (x, y, z)"
    by (cases "thread_xyz blockDim (blockIdx, threadIdx)") auto
  have "\<not> (x < unat w \<and> y < unat h \<and> z < unat c
           \<and> (\<exists>k<nat (sint disp). j = (z * unat h * unat w + y * unat w + x)
                                        + unat c * unat h * unat w
                                        + k * (2 * unat c * unat h * unat w)))"
  proof
    assume a: "x < unat w \<and> y < unat h \<and> z < unat c
           \<and> (\<exists>k<nat (sint disp). j = (z * unat h * unat w + y * unat w + x)
                                        + unat c * unat h * unat w
                                        + k * (2 * unat c * unat h * unat w))"
    then have "z * unat h * unat w + y * unat w + x < unat c * unat h * unat w"
      by (intro flat_index_less) simp_all
    then show False using a assms(3) by blast
  qed
  then show ?thesis
    by (simp only: costVolumeCopyPadKernel_at [OF vol disp] t prod.case if_False)
qed

lemma costVolumeCopyKernel_local:
  fixes c h w disp :: int32_t
  assumes vol: "2 * unat c * unat h * unat w < 2 ^ 31" and disp: "0 \<le> sint disp"
    and "m j = m' j"
  shows "costVolumeCopyKernel src c h w disp blockIdx blockDim threadIdx m j
       = costVolumeCopyKernel src c h w disp blockIdx blockDim threadIdx m' j"
  using assms(3) by (simp only: costVolumeCopyKernel_at [OF vol disp])

lemma costVolumeCopyPadKernel_local:
  fixes c h w disp :: int32_t
  assumes vol: "2 * unat c * unat h * unat w < 2 ^ 31" and disp: "0 \<le> sint disp"
    and "m j = m' j"
  shows "costVolumeCopyPadKernel src c h w disp blockIdx blockDim threadIdx m j
       = costVolumeCopyPadKernel src c h w disp blockIdx blockDim threadIdx m' j"
  using assms(3) by (simp only: costVolumeCopyPadKernel_at [OF vol disp])


text \<open>
  Claim C8, as amended. When \<open>2 * C * H * W < 2 ^ 31\<close>, so that the product
  \<^verbatim>\<open>2 * c * h * w\<close> does not overflow an \<^verbatim>\<open>int\<close>, and \<^verbatim>\<open>disp\<close> is not negative, whatever the
  threads that run them: \<^verbatim>\<open>costVolumeCopyKernel\<close> changes only elements \<open>d * 2CHW + i\<close> and
  \<^verbatim>\<open>costVolumeCopyPadKernel\<close> only elements \<open>d * 2CHW + CHW + i\<close>, with \<open>d < disp\<close> and
  \<open>i < CHW\<close>; running the two kernels in either order leaves the same buffer.
\<close>

theorem cost_volume_kernels_commute:
  fixes c h w disp :: int32_t
  assumes vol: "2 * unat c * unat h * unat w < 2 ^ 31" and disp: "0 \<le> sint disp"
  shows "(run_threads (costVolumeCopyKernel left c h w disp) b ts dst j \<noteq> dst j \<longrightarrow>
            (\<exists>k<nat (sint disp). \<exists>i<unat c * unat h * unat w.
               j = k * (2 * unat c * unat h * unat w) + i))
       \<and> (run_threads (costVolumeCopyPadKernel right c h w disp) b' ts' dst j \<noteq> dst j \<longrightarrow>
            (\<exists>k<nat (sint disp). \<exists>i<unat c * unat h * unat w.
               j = k * (2 * unat c * unat h * unat w) + unat c * unat h * unat w + i))
       \<and> run_threads (costVolumeCopyPadKernel right c h w disp) b' ts'
            (run_threads (costVolumeCopyKernel left c h w disp) b ts dst)
         = run_threads (costVolumeCopyKernel left c h w disp) b ts
            (run_threads (costVolumeCopyPadKernel right c h w disp) b' ts' dst)"
proof -
  let ?V = "unat c * unat h * unat w"
  let ?S = "2 * unat c * unat h * unat w"
  have S: "?S = 2 * ?V" by simp
  let ?copy = "costVolumeCopyKernel left c h w disp"
  let ?pad = "costVolumeCopyPadKernel right c h w disp"
  define L where "L i \<longleftrightarrow> (\<exists>k<nat (sint disp). \<exists>i'<?V. i = k * ?S + i')" for i
  define R where "R i \<longleftrightarrow> (\<exists>k<nat (sint disp). \<exists>i'<?V. i = k * ?S + ?V + i')" for i
  have LR: "\<not> R i" if "L i" for i
  proof
    assume "R i"
    then obtain k' i2 where r: "i2 < ?V" "i = k' * ?S + ?V + i2" unfolding R_def by blast
    from \<open>L i\<close> obtain k i1 where l: "i1 < ?V" "i = k * ?S + i1" unfolding L_def by blast
    have "i1 + k * ?S = i2 + ?V + k' * ?S" using r(2) l(2) by simp
    then have "i1 + k * (2 * ?V) = i2 + ?V + k' * (2 * ?V)" by (simp only: S)
    then show False using halves_disjoint [OF l(1) r(1)] by blast
  qed
  have cf: "?copy bi bd ti m i = m i" if "\<not> L i" for bi bd ti m i
  proof (rule costVolumeCopyKernel_frame [OF vol disp])
    fix k i' assume "k < nat (sint disp)" "i' < ?V"
    then have "i \<noteq> k * ?S + i'" using that unfolding L_def by blast
    moreover have "k * ?S + i' = i' + k * ?S" by (rule add.commute)
    ultimately show "i \<noteq> i' + k * ?S" by simp
  qed
  have pf: "?pad bi bd ti m i = m i" if "\<not> R i" for bi bd ti m i
  proof (rule costVolumeCopyPadKernel_frame [OF vol disp])
    fix k i' assume "k < nat (sint disp)" "i' < ?V"
    then have "i \<noteq> k * ?S + ?V + i'" using that unfolding R_def by blast
    moreover have "k * ?S + ?V + i' = i' + ?V + k * ?S" by presburger
    ultimately show "i \<noteq> i' + ?V + k * ?S" by simp
  qed
  have copy_frame: "run_threads ?copy bb tt m i = m i" if "\<not> L i" for bb tt m i
    by (rule run_threads_untouched) (rule cf [OF that])
  have pad_frame: "run_threads ?pad bb tt m i = m i" if "\<not> R i" for bb tt m i
    by (rule run_threads_untouched) (rule pf [OF that])
  have copy_local: "run_threads ?copy bb tt m i = run_threads ?copy bb tt m' i"
    if "m i = m' i" for bb tt m m' i
    using that by (intro run_threads_local costVolumeCopyKernel_local [OF vol disp])
  have pad_local: "run_threads ?pad bb tt m i = run_threads ?pad bb tt m' i"
    if "m i = m' i" for bb tt m m' i
    using that by (intro run_threads_local costVolumeCopyPadKernel_local [OF vol disp])
  have comm: "run_threads ?pad b' ts' (run_threads ?copy b ts dst) i
            = run_threads ?copy b ts (run_threads ?pad b' ts' dst) i" for i
  proof (cases "R i")
    case False
    have "run_threads ?pad b' ts' (run_threads ?copy b ts dst) i = run_threads ?copy b ts dst i"
      by (rule pad_frame [OF False])
    moreover have "run_threads ?pad b' ts' dst i = dst i" by (rule pad_frame [OF False])
    then have "run_threads ?copy b ts (run_threads ?pad b' ts' dst) i = run_threads ?copy b ts dst i"
      by (rule copy_local)
    ultimately show ?thesis by simp
  next
    case True
    then have nl: "\<not> L i" using LR by blast
    have "run_threads ?copy b ts dst i = dst i" by (rule copy_frame [OF nl])
    then have "run_threads ?pad b' ts' (run_threads ?copy b ts dst) i = run_threads ?pad b' ts' dst i"
      by (rule pad_local)
    moreover have "run_threads ?copy b ts (run_threads ?pad b' ts' dst) i = run_threads ?pad b' ts' dst i"
      by (rule copy_frame [OF nl])
    ultimately show ?thesis by simp
  qed
  have "run_threads ?copy b ts dst j \<noteq> dst j \<longrightarrow> L j" using copy_frame [of j b ts dst] by blast
  moreover have "run_threads ?pad b' ts' dst j \<noteq> dst j \<longrightarrow> R j" using pad_frame [of j b' ts' dst] by blast
  moreover have "run_threads ?pad b' ts' (run_threads ?copy b ts dst)
               = run_threads ?copy b ts (run_threads ?pad b' ts' dst)"
    by (rule ext) (rule comm)
  ultimately show ?thesis unfolding L_def R_def by (intro conjI)
qed

text \<open>
  Claim C8 as it is written bounds neither the shape nor \<^verbatim>\<open>disp\<close>. For the shape
  \<open>[1, 1, 2 ^ 30]\<close> and two disparities the product \<^verbatim>\<open>2 * c * h * w\<close> is \<open>2 ^ 31\<close>, which as an
  \<^verbatim>\<open>int\<close> is negative and becomes the stride \<open>2 ^ 64 - 2 ^ 31\<close> of the \<^verbatim>\<open>size_t\<close> arithmetic.
  The first thread of the launch, which \<^verbatim>\<open>computeCostVolume\<close> starts in a grid of
  \<open>2 ^ 26\<close> blocks along x, then writes the element at offset \<open>2 ^ 64 - 2 ^ 31\<close>, which is
  none of the offsets \<open>d * 2CHW + i\<close> with \<open>d < 2\<close> and \<open>i < CHW\<close>.
\<close>

theorem costVolumeCopyKernel_stride_wraps:
  "run_threads (costVolumeCopyKernel ones 1 1 1073741824 2) (Dim3 16 16 1)
     [(Dim3 0 0 0, Dim3 0 0 0)] (buf idle) 18446744071562067968 = 1
   \<and> buf idle 18446744071562067968 = 0
   \<and> \<not> (\<exists>k<nat (sint (2 :: int32_t)).
          \<exists>i<unat (1 :: int32_t) * unat (1 :: int32_t) * unat (1073741824 :: int32_t).
            (18446744071562067968 :: nat)
              = k * (2 * unat (1 :: int32_t) * unat (1 :: int32_t) * unat (1073741824 :: int32_t)) + i)
   \<and> (Dim3 0 0 0, Dim3 0 0 0) \<in> set (grid_threads (Dim3 67108864 1 1) (Dim3 16 16 1))
   \<and> getBlockCount release_ok 1073741824 16 = Inr 67108864"
proof -
  have "costVolumeCopyKernel ones 1 1 1073741824 2 (Dim3 0 0 0) (Dim3 16 16 1) (Dim3 0 0 0)
          (buf idle) 18446744071562067968 = 1"
    by (simp add: costVolumeCopyKernel_def Let_def ones_def word_sless_alt)
  then have a: "run_threads (costVolumeCopyKernel ones 1 1 1073741824 2) (Dim3 16 16 1)
     [(Dim3 0 0 0, Dim3 0 0 0)] (buf idle) 18446744071562067968 = 1"
    by (simp add: run_threads_def)
  have b: "buf idle 18446744071562067968 = 0" by (simp add: idle_def)
  have c: "\<not> (\<exists>k<nat (sint (2 :: int32_t)).
          \<exists>i<unat (1 :: int32_t) * unat (1 :: int32_t) * unat (1073741824 :: int32_t).
            (18446744071562067968 :: nat)
              = k * (2 * unat (1 :: int32_t) * unat (1 :: int32_t) * unat (1073741824 :: int32_t)) + i)"
  proof
    assume "\<exists>k<nat (sint (2 :: int32_t)).
          \<exists>i<unat (1 :: int32_t) * unat (1 :: int32_t) * unat (1073741824 :: int32_t).
            (18446744071562067968 :: nat)
              = k * (2 * unat (1 :: int32_t) * unat (1 :: int32_t) * unat (1073741824 :: int32_t)) + i"
    then obtain k i :: nat where h: "k < 2" "i < 1073741824"
      "18446744071562067968 = k * 2147483648 + i" by auto
    have "k * 2147483648 \<le> 1 * 2147483648" using h(1) by (intro mult_le_mono1) simp
    then show False using h(2,3) by linarith
  qed
  have d: "(Dim3 0 0 0, Dim3 0 0 0) \<in> set (grid_threads (Dim3 67108864 1 1) (Dim3 16 16 1))"
    by (simp add: grid_threads_iff)
  have e: "getBlockCount release_ok 1073741824 16 = Inr 67108864"
    by (simp add: getBlockCount_def release_ok_def)
  from a b c d e show ?thesis by (intro conjI)
qed

section \<open>The contents of the cost volume\<close>

lemma slice_index_unique:
  fixes i i' k k' s :: nat
  assumes "i + k * s = i' + k' * s" and "i < s" and "i' < s"
  shows "i = i'" and "k = k'"
proof -
  have "k * s + i = k' * s + i'" using assms(1) by (simp add: add.commute)
  from mixed_radix_unique [OF this assms(2,3)] show "i = i'" and "k = k'" by simp_all
qed

lemma volume_factors:
  fixes c h w :: nat
  assumes "0 < c" and "0 < h" and "0 < w"
  shows "c \<le> c * h * w" and "h \<le> c * h * w" and "w \<le> c * h * w"
proof -
  have a: "c \<le> c * h" using assms(2) by (cases h) simp_all
  have b: "c * h \<le> c * h * w" using assms(3) by (cases w) simp_all
  have d: "h \<le> c * h" using assms(1) by (cases c) simp_all
  have "0 < c * h" using assms(1,2) by simp
  then show "w \<le> c * h * w" by (cases "c * h") simp_all
  show "c \<le> c * h * w" using a b by (rule order_trans)
  show "h \<le> c * h * w" using d b by (rule order_trans)
qed

lemma costVolume_grid:
  fixes c h w disp gx gy gz :: uint32_t
  assumes vol: "2 * unat c * unat h * unat w < 2 ^ 31" and disp: "0 \<le> sint disp"
    and gx: "unat gx = (unat w + 15) div 16" and gy: "unat gy = (unat h + 15) div 16"
    and gz: "unat gz = unat c"
    and x: "x < unat w" and y: "y < unat h" and z: "z < unat c" and k: "k < nat (sint disp)"
  shows "run_threads (costVolumeCopyKernel src c h w disp) (Dim3 16 16 1)
           (grid_threads (Dim3 gx gy gz) (Dim3 16 16 1)) dst
           ((z * unat h * unat w + y * unat w + x) + k * (2 * unat c * unat h * unat w))
         = src (z * unat h * unat w + y * unat w + x)"
    and "run_threads (costVolumeCopyPadKernel src c h w disp) (Dim3 16 16 1)
           (grid_threads (Dim3 gx gy gz) (Dim3 16 16 1)) dst
           ((z * unat h * unat w + y * unat w + x) + unat c * unat h * unat w
              + k * (2 * unat c * unat h * unat w))
         = (if x < k then 0 else src (z * unat h * unat w + y * unat w + x - k))"
proof -
  let ?ts = "grid_threads (Dim3 gx gy gz) (Dim3 16 16 1)"
  let ?b = "Dim3 16 16 1"
  let ?I = "z * unat h * unat w + y * unat w + x"
  let ?V = "unat c * unat h * unat w"
  let ?S = "2 * unat c * unat h * unat w"
  have S: "?S = 2 * ?V" by simp
  have IV: "?I < ?V" using x y z by (rule flat_index_less)
  have "0 < ?V" using x y z by simp
  then have Spos: "0 < ?S" unfolding S by simp
  have pos: "0 < unat c" "0 < unat h" "0 < unat w" using x y z by simp_all
  have Vb: "?V < 2 ^ 30" using vol by simp
  have "unat w \<le> ?V" using pos by (rule volume_factors)
  then have w30: "unat w < 2 ^ 30" using Vb by (rule le_less_trans)
  have "unat h \<le> ?V" using pos by (rule volume_factors)
  then have "unat h < 2 ^ 30" using Vb by (rule le_less_trans)
  with w30 have wb: "unat w + 15 < 2 ^ 32" and hb: "unat h + 15 < 2 ^ 32" by simp_all
  have g: "unat gx * 16 \<le> 2 ^ 32" "unat gy * 16 \<le> 2 ^ 32"
    using ceil16_covers(2) [of "unat w"] ceil16_covers(2) [of "unat h"] gx gy wb hb by simp_all
  have "x < unat gx * 16" "y < unat gy * 16" "z < unat gz"
    using x y z gx gy gz ceil16_covers(1) [of "unat w"] ceil16_covers(1) [of "unat h"]
    by simp_all
  from grid16_ex [OF g this] obtain t0 where
    t0: "t0 \<in> set ?ts" "thread_xyz ?b t0 = (x, y, z)" by blast
  obtain bi ti where p: "t0 = (bi, ti)" by (cases t0) auto
  have other: "x' = x \<and> y' = y \<and> z' = z"
    if "x' < unat w" "y' < unat h" "z' < unat c"
      "?I + a + k * ?S = (z' * unat h * unat w + y' * unat w + x') + a + k' * ?S" "a \<le> ?V"
    for x' y' z' k' a
  proof -
    let ?I' = "z' * unat h * unat w + y' * unat w + x'"
    have "?I' < ?V" using that(1,2,3) by (rule flat_index_less)
    then have "?I + a < 2 * ?V" "?I' + a < 2 * ?V" using IV that(5) by linarith+
    then have "?I + a < ?S" "?I' + a < ?S" unfolding S .
    from slice_index_unique(1) [OF that(4) this] have "?I = ?I'" by simp
    from flat_index_unique [OF this x that(1) y that(2)] show ?thesis by simp
  qed
  have same: "(blockIdx, threadIdx) = (bi, ti)"
    if "(blockIdx, threadIdx) \<in> set ?ts" "thread_xyz ?b (blockIdx, threadIdx) = (x, y, z)"
    for blockIdx threadIdx
    using grid16_inj [OF g that(1) t0(1)] that(2) t0(2) p by simp
  show "run_threads (costVolumeCopyKernel src c h w disp) ?b ?ts dst (?I + k * ?S) = src ?I"
  proof -
    note at = costVolumeCopyKernel_at [OF vol disp]
    have "run_threads (costVolumeCopyKernel src c h w disp) ?b ?ts dst (?I + k * ?S)
        = (\<lambda>v. src ?I) (dst (?I + k * ?S))"
    proof (rule run_threads_single [OF distinct_grid_threads t0(1) [unfolded p]])
      fix m :: "nat \<Rightarrow> 'a"
      have "\<exists>k'<nat (sint disp). ?I + k * ?S = ?I + k' * ?S" using k by blast
      then show "costVolumeCopyKernel src c h w disp bi ?b ti m (?I + k * ?S) = src ?I"
        using t0(2) x y z by (simp only: at p prod.case) simp
    next
      fix blockIdx threadIdx and m :: "nat \<Rightarrow> 'a"
      assume a: "(blockIdx, threadIdx) \<in> set ?ts" "(blockIdx, threadIdx) \<noteq> (bi, ti)"
      obtain x' y' z' where c: "thread_xyz ?b (blockIdx, threadIdx) = (x', y', z')"
        by (cases "thread_xyz ?b (blockIdx, threadIdx)") auto
      have "\<not> (x' < unat w \<and> y' < unat h \<and> z' < unat c
               \<and> (\<exists>k'<nat (sint disp). ?I + k * ?S = (z' * unat h * unat w + y' * unat w + x') + k' * ?S))"
      proof
        assume h: "x' < unat w \<and> y' < unat h \<and> z' < unat c
               \<and> (\<exists>k'<nat (sint disp). ?I + k * ?S = (z' * unat h * unat w + y' * unat w + x') + k' * ?S)"
        then obtain k' where "?I + 0 + k * ?S = (z' * unat h * unat w + y' * unat w + x') + 0 + k' * ?S"
          by auto
        from other [OF _ _ _ this] h have "x' = x \<and> y' = y \<and> z' = z" by simp
        then show False using same [OF a(1)] c a(2) by simp
      qed
      then show "costVolumeCopyKernel src c h w disp blockIdx ?b threadIdx m (?I + k * ?S) = m (?I + k * ?S)"
        by (simp only: at c prod.case if_False)
    qed
    then show ?thesis by simp
  qed
  show "run_threads (costVolumeCopyPadKernel src c h w disp) ?b ?ts dst (?I + ?V + k * ?S)
         = (if x < k then 0 else src (?I - k))"
  proof -
    note at = costVolumeCopyPadKernel_at [OF vol disp]
    have kk: "(?I + ?V + k * ?S - (?I + ?V)) div ?S = k" using Spos by simp
    have "run_threads (costVolumeCopyPadKernel src c h w disp) ?b ?ts dst (?I + ?V + k * ?S)
        = (\<lambda>v. if x < k then 0 else src (?I - k)) (dst (?I + ?V + k * ?S))"
    proof (rule run_threads_single [OF distinct_grid_threads t0(1) [unfolded p]])
      fix m :: "nat \<Rightarrow> 'a"
      have "\<exists>k'<nat (sint disp). ?I + ?V + k * ?S = ?I + ?V + k' * ?S" using k by blast
      then show "costVolumeCopyPadKernel src c h w disp bi ?b ti m (?I + ?V + k * ?S)
               = (if x < k then 0 else src (?I - k))"
        using t0(2) x y z by (simp only: at p prod.case kk) simp
    next
      fix blockIdx threadIdx and m :: "nat \<Rightarrow> 'a"
      assume a: "(blockIdx, threadIdx) \<in> set ?ts" "(blockIdx, threadIdx) \<noteq> (bi, ti)"
      obtain x' y' z' where c: "thread_xyz ?b (blockIdx, threadIdx) = (x', y', z')"
        by (cases "thread_xyz ?b (blockIdx, threadIdx)") auto
      have "\<not> (x' < unat w \<and> y' < unat h \<and> z' < unat c
               \<and> (\<exists>k'<nat (sint disp). ?I + ?V + k * ?S
                      = (z' * unat h * unat w + y' * unat w + x') + ?V + k' * ?S))"
      proof
        assume h: "x' < unat w \<and> y' < unat h \<and> z' < unat c
               \<and> (\<exists>k'<nat (sint disp). ?I + ?V + k * ?S
                      = (z' * unat h * unat w + y' * unat w + x') + ?V + k' * ?S)"
        then obtain k' where "?I + ?V + k * ?S = (z' * unat h * unat w + y' * unat w + x') + ?V + k' * ?S"
          by auto
        from other [OF _ _ _ this] h have "x' = x \<and> y' = y \<and> z' = z" by simp
        then show False using same [OF a(1)] c a(2) by simp
      qed
      then show "costVolumeCopyPadKernel src c h w disp blockIdx ?b threadIdx m (?I + ?V + k * ?S)
               = m (?I + ?V + k * ?S)"
        by (simp only: at c prod.case if_False)
    qed
    then show ?thesis by simp
  qed
qed


lemma computeCostVolume_success:
  assumes dims: "dims_d in_dims ! 0 = of_nat C" "dims_d in_dims ! 1 = of_nat H"
      "dims_d in_dims ! 2 = of_nat W" "dims_d out_dims ! 0 = of_nat D"
    and pos: "0 < C" "0 < H" "0 < W"
    and vol: "2 * C * H * W < 2 ^ 31" and D: "D < 2 ^ 31"
    and ranks: "ndebug rt \<or> nbDims in_dims = 3 \<and> nbDims out_dims = 4"
    and ok: "lastError rt (length (launched st))
               (Dim3 (of_nat ((W + 15) div 16)) (of_nat ((H + 15) div 16)) (of_nat C))
               (Dim3 16 16 1) = cudaSuccess"
      "lastError rt (Suc (length (launched st)))
               (Dim3 (of_nat ((W + 15) div 16)) (of_nat ((H + 15) div 16)) (of_nat C))
               (Dim3 16 16 1) = cudaSuccess"
    and sync: "ndebug rt \<or> streamSynchronize rt (length (launched st)) = cudaSuccess
                 \<and> streamSynchronize rt (Suc (length (launched st))) = cudaSuccess"
  shows "computeCostVolume rt left right in_dims out_dims st =
      (Inr cudaSuccess,
       \<lparr>buf = run_threads (costVolumeCopyPadKernel right (of_nat C) (of_nat H) (of_nat W) (of_nat D))
                (Dim3 16 16 1)
                (grid_threads (Dim3 (of_nat ((W + 15) div 16)) (of_nat ((H + 15) div 16)) (of_nat C))
                   (Dim3 16 16 1))
                (run_threads (costVolumeCopyKernel left (of_nat C) (of_nat H) (of_nat W) (of_nat D))
                   (Dim3 16 16 1)
                   (grid_threads (Dim3 (of_nat ((W + 15) div 16)) (of_nat ((H + 15) div 16)) (of_nat C))
                      (Dim3 16 16 1))
                   (buf st)),
         launched = launched st @ [''costVolumeCopyKernel'', ''costVolumeCopyPadKernel''],
         last_error = cudaSuccess\<rparr>)"
    and "unat (of_nat C :: uint32_t) = C" and "unat (of_nat H :: uint32_t) = H"
    and "unat (of_nat W :: uint32_t) = W" and "sint (of_nat D :: int32_t) = int D"
    and "unat (of_nat ((W + 15) div 16) :: uint32_t) = (W + 15) div 16"
    and "unat (of_nat ((H + 15) div 16) :: uint32_t) = (H + 15) div 16"
proof -
  have Vb: "C * H * W < 2 ^ 30" using vol by simp
  have "C \<le> C * H * W" using pos by (rule volume_factors)
  then have C30: "C < 2 ^ 30" using Vb by (rule le_less_trans)
  have "H \<le> C * H * W" using pos by (rule volume_factors)
  then have H30: "H < 2 ^ 30" using Vb by (rule le_less_trans)
  have "W \<le> C * H * W" using pos by (rule volume_factors)
  then have W30: "W < 2 ^ 30" using Vb by (rule le_less_trans)
  show u: "unat (of_nat C :: uint32_t) = C" "unat (of_nat H :: uint32_t) = H"
    "unat (of_nat W :: uint32_t) = W"
    using C30 H30 W30 by (simp_all add: unat_of_nat)
  have "unat (of_nat D :: int32_t) = D" using D by (simp add: unat_of_nat)
  then show "sint (of_nat D :: int32_t) = int D" using D sint_small [of "of_nat D"] by simp
  have wb: "W + 15 < 2 ^ 32" "H + 15 < 2 ^ 32" "C < 2 ^ 32" using C30 H30 W30 by simp_all
  have gx: "getBlockCount rt (of_nat W) 16 = Inr (of_nat ((W + 15) div 16))"
    using pos(3) wb(1) by (rule getBlockCount_16)
  have gy: "getBlockCount rt (of_nat H) 16 = Inr (of_nat ((H + 15) div 16))"
    using pos(2) wb(2) by (rule getBlockCount_16)
  have gz: "getBlockCount rt (of_nat C) 1 = Inr (of_nat C)"
    using pos(1) wb(3) by (rule getBlockCount_1)
  show "unat (of_nat ((W + 15) div 16) :: uint32_t) = (W + 15) div 16"
    using pos(3) wb(1) by (rule getBlockCount_16)
  show "unat (of_nat ((H + 15) div 16) :: uint32_t) = (H + 15) div 16"
    using pos(2) wb(2) by (rule getBlockCount_16)
  show "computeCostVolume rt left right in_dims out_dims st =
      (Inr cudaSuccess,
       \<lparr>buf = run_threads (costVolumeCopyPadKernel right (of_nat C) (of_nat H) (of_nat W) (of_nat D))
                (Dim3 16 16 1)
                (grid_threads (Dim3 (of_nat ((W + 15) div 16)) (of_nat ((H + 15) div 16)) (of_nat C))
                   (Dim3 16 16 1))
                (run_threads (costVolumeCopyKernel left (of_nat C) (of_nat H) (of_nat W) (of_nat D))
                   (Dim3 16 16 1)
                   (grid_threads (Dim3 (of_nat ((W + 15) div 16)) (of_nat ((H + 15) div 16)) (of_nat C))
                      (Dim3 16 16 1))
                   (buf st)),
         launched = launched st @ [''costVolumeCopyKernel'', ''costVolumeCopyPadKernel''],
         last_error = cudaSuccess\<rparr>)"
    using dims ranks ok sync gx gy gz
    by (auto simp add: computeCostVolume_def launch_def CHECKK_def Let_def
        simp del: of_nat_mult of_nat_add)
qed


lemma sum3_rotate:
  fixes a b c :: nat
  shows "a + b + c = c + b + a" and "a + c = c + a"
  by simp_all

text \<open>
  Claim C1, as amended. For an input descriptor \<open>[C, H, W]\<close> of positive extents with
  \<open>2 * C * H * W < 2 ^ 31\<close>, an output descriptor whose first extent is \<open>D\<close>, the ranks 3 and
  4 that the assertions of a debug build require, and two launches that succeed:
  \<^verbatim>\<open>computeCostVolume\<close> returns success and, for every \<open>d < D\<close> and every \<open>(c, y, x)\<close>, the
  element of the right half of slice \<open>d\<close> is \<open>right[c, y, x - d]\<close> when \<open>x \<ge> d\<close> and 0 when
  \<open>x < d\<close>.
\<close>

theorem computeCostVolume_right_half:
  assumes dims: "dims_d in_dims ! 0 = of_nat C" "dims_d in_dims ! 1 = of_nat H"
      "dims_d in_dims ! 2 = of_nat W" "dims_d out_dims ! 0 = of_nat D"
    and pos: "0 < C" "0 < H" "0 < W"
    and vol: "2 * C * H * W < 2 ^ 31" and D: "D < 2 ^ 31"
    and ranks: "ndebug rt \<or> nbDims in_dims = 3 \<and> nbDims out_dims = 4"
    and ok: "lastError rt (length (launched st))
               (Dim3 (of_nat ((W + 15) div 16)) (of_nat ((H + 15) div 16)) (of_nat C))
               (Dim3 16 16 1) = cudaSuccess"
      "lastError rt (Suc (length (launched st)))
               (Dim3 (of_nat ((W + 15) div 16)) (of_nat ((H + 15) div 16)) (of_nat C))
               (Dim3 16 16 1) = cudaSuccess"
    and sync: "ndebug rt \<or> streamSynchronize rt (length (launched st)) = cudaSuccess
                 \<and> streamSynchronize rt (Suc (length (launched st))) = cudaSuccess"
  shows "fst (computeCostVolume rt left right in_dims out_dims st) = Inr cudaSuccess
     \<and> (\<forall>d<D. \<forall>c<C. \<forall>y<H. \<forall>x<W.
          buf (snd (computeCostVolume rt left right in_dims out_dims st))
            (d * (2 * C * H * W) + C * H * W + (c * H * W + y * W + x))
          = (if d \<le> x then right (c * H * W + y * W + (x - d)) else 0))"
proof -
  note s = computeCostVolume_success(1) [OF dims pos vol D ranks ok sync, of left right]
    computeCostVolume_success(2-7) [OF dims pos vol D ranks ok sync]
  let ?g = "Dim3 (of_nat ((W + 15) div 16)) (of_nat ((H + 15) div 16)) (of_nat C) :: dim3"
  have v: "2 * unat (of_nat C :: uint32_t) * unat (of_nat H :: uint32_t) * unat (of_nat W :: uint32_t) < 2 ^ 31"
    using vol by (simp only: s(2,3,4))
  have dp: "0 \<le> sint (of_nat D :: int32_t)" by (simp only: s(5) of_nat_0_le_iff)
  note g = costVolume_grid(2) [where c = "of_nat C" and h = "of_nat H" and w = "of_nat W"
      and disp = "of_nat D" and gx = "of_nat ((W + 15) div 16)" and gy = "of_nat ((H + 15) div 16)"
      and gz = "of_nat C", OF v dp, unfolded s(2,3,4,5,6,7) nat_int, OF refl refl refl]
  show ?thesis
  proof (intro conjI allI impI)
    show "fst (computeCostVolume rt left right in_dims out_dims st) = Inr cudaSuccess"
      by (simp only: s(1) fst_conv)
  next
    fix d c y x assume a: "d < D" "c < C" "y < H" "x < W"
    have "buf (snd (computeCostVolume rt left right in_dims out_dims st))
            ((c * H * W + y * W + x) + C * H * W + d * (2 * C * H * W))
          = (if x < d then 0 else right (c * H * W + y * W + x - d))"
      by (simp only: s(1) snd_conv stream_state.simps g [OF a(4,3,2,1)])
    moreover have "c * H * W + y * W + x - d = c * H * W + y * W + (x - d)" if "\<not> x < d"
      using that by simp
    ultimately show "buf (snd (computeCostVolume rt left right in_dims out_dims st))
            (d * (2 * C * H * W) + C * H * W + (c * H * W + y * W + x))
          = (if d \<le> x then right (c * H * W + y * W + (x - d)) else 0)"
      by (simp only: sum3_rotate(1) [of "d * (2 * C * H * W)"]) (simp add: not_less)
  qed
qed

text \<open>
  Claim C2, as amended. Under the same conditions, for every \<open>d < D\<close> and every
  \<open>(c, y, x)\<close>, the element of the left half of slice \<open>d\<close> is \<open>left[c, y, x]\<close>; the right
  side does not depend on \<open>d\<close>, so the left halves of all slices are the same.
\<close>

theorem computeCostVolume_left_half:
  assumes dims: "dims_d in_dims ! 0 = of_nat C" "dims_d in_dims ! 1 = of_nat H"
      "dims_d in_dims ! 2 = of_nat W" "dims_d out_dims ! 0 = of_nat D"
    and pos: "0 < C" "0 < H" "0 < W"
    and vol: "2 * C * H * W < 2 ^ 31" and D: "D < 2 ^ 31"
    and ranks: "ndebug rt \<or> nbDims in_dims = 3 \<and> nbDims out_dims = 4"
    and ok: "lastError rt (length (launched st))
               (Dim3 (of_nat ((W + 15) div 16)) (of_nat ((H + 15) div 16)) (of_nat C))
               (Dim3 16 16 1) = cudaSuccess"
      "lastError rt (Suc (length (launched st)))
               (Dim3 (of_nat ((W + 15) div 16)) (of_nat ((H + 15) div 16)) (of_nat C))
               (Dim3 16 16 1) = cudaSuccess"
    and sync: "ndebug rt \<or> streamSynchronize rt (length (launched st)) = cudaSuccess
                 \<and> streamSynchronize rt (Suc (length (launched st))) = cudaSuccess"
  shows "fst (computeCostVolume rt left right in_dims out_dims st) = Inr cudaSuccess
     \<and> (\<forall>d<D. \<forall>c<C. \<forall>y<H. \<forall>x<W.
          buf (snd (computeCostVolume rt left right in_dims out_dims st))
            (d * (2 * C * H * W) + (c * H * W + y * W + x))
          = left (c * H * W + y * W + x))"
proof -
  note s = computeCostVolume_success(1) [OF dims pos vol D ranks ok sync, of left right]
    computeCostVolume_success(2-7) [OF dims pos vol D ranks ok sync]
  let ?g = "Dim3 (of_nat ((W + 15) div 16)) (of_nat ((H + 15) div 16)) (of_nat C) :: dim3"
  have v: "2 * unat (of_nat C :: uint32_t) * unat (of_nat H :: uint32_t) * unat (of_nat W :: uint32_t) < 2 ^ 31"
    using vol by (simp only: s(2,3,4))
  have dp: "0 \<le> sint (of_nat D :: int32_t)" by (simp only: s(5) of_nat_0_le_iff)
  note g = costVolume_grid(1) [where c = "of_nat C" and h = "of_nat H" and w = "of_nat W"
      and disp = "of_nat D" and gx = "of_nat ((W + 15) div 16)" and gy = "of_nat ((H + 15) div 16)"
      and gz = "of_nat C", OF v dp, unfolded s(2,3,4,5,6,7) nat_int, OF refl refl refl]
  note f = costVolumeCopyPadKernel_frame [where c = "of_nat C" and h = "of_nat H" and w = "of_nat W"
      and disp = "of_nat D", OF v dp, unfolded s(2,3,4,5) nat_int]
  show ?thesis
  proof (intro conjI allI impI)
    show "fst (computeCostVolume rt left right in_dims out_dims st) = Inr cudaSuccess"
      by (simp only: s(1) fst_conv)
  next
    fix d c y x assume a: "d < D" "c < C" "y < H" "x < W"
    let ?j = "(c * H * W + y * W + x) + d * (2 * C * H * W)"
    have I: "c * H * W + y * W + x < C * H * W" using a(4,3,2) by (rule flat_index_less)
    have pad: "run_threads (costVolumeCopyPadKernel right (of_nat C) (of_nat H) (of_nat W) (of_nat D))
                 (Dim3 16 16 1) (grid_threads ?g (Dim3 16 16 1)) m ?j = m ?j" for m
    proof (rule run_threads_untouched, rule f)
      fix k i assume "k < D" "i < C * H * W"
      have "(c * H * W + y * W + x) + d * (2 * (C * H * W)) \<noteq> i + C * H * W + k * (2 * (C * H * W))"
        using I \<open>i < C * H * W\<close> by (rule halves_disjoint)
      moreover have "2 * (C * H * W) = 2 * C * H * W" by simp
      ultimately show "?j \<noteq> i + C * H * W + k * (2 * C * H * W)" by simp
    qed
    have "buf (snd (computeCostVolume rt left right in_dims out_dims st)) ?j
          = left (c * H * W + y * W + x)"
      by (simp only: s(1) snd_conv stream_state.simps pad g [OF a(4,3,2,1)])
    then show "buf (snd (computeCostVolume rt left right in_dims out_dims st))
            (d * (2 * C * H * W) + (c * H * W + y * W + x))
          = left (c * H * W + y * W + x)"
      by (simp only: sum3_rotate(2) [of "d * (2 * C * H * W)"])
  qed
qed


theorem computeCostVolume_right_half_witness:
  "fst (computeCostVolume debug_ok ones twos (dims_of 3 [1, 1, 4]) (dims_of 4 [2, 2, 1, 4]) idle)
     = Inr cudaSuccess
   \<and> buf (snd (computeCostVolume debug_ok ones twos (dims_of 3 [1, 1, 4]) (dims_of 4 [2, 2, 1, 4]) idle))
       (1 * (2 * 1 * 1 * 4) + 1 * 1 * 4 + (0 * 1 * 4 + 0 * 4 + 2))
     = twos (0 * 1 * 4 + 0 * 4 + (2 - 1))
   \<and> buf (snd (computeCostVolume debug_ok ones twos (dims_of 3 [1, 1, 4]) (dims_of 4 [2, 2, 1, 4]) idle))
       (1 * (2 * 1 * 1 * 4) + 1 * 1 * 4 + (0 * 1 * 4 + 0 * 4 + 0))
     = 0"
proof -
  have t: "fst (computeCostVolume debug_ok ones twos (dims_of 3 [1, 1, 4]) (dims_of 4 [2, 2, 1, 4]) idle)
     = Inr cudaSuccess
   \<and> (\<forall>d<2. \<forall>c<1. \<forall>y<1. \<forall>x<4.
        buf (snd (computeCostVolume debug_ok ones twos (dims_of 3 [1, 1, 4]) (dims_of 4 [2, 2, 1, 4]) idle))
          (d * (2 * 1 * 1 * 4) + 1 * 1 * 4 + (c * 1 * 4 + y * 4 + x))
        = (if d \<le> x then twos (c * 1 * 4 + y * 4 + (x - d)) else 0))"
    by (rule computeCostVolume_right_half) (simp_all add: dims_of_def debug_ok_def)
  from t [THEN conjunct2, rule_format, of 1 0 0 2] t [THEN conjunct2, rule_format, of 1 0 0 0]
    t [THEN conjunct1]
  show ?thesis by simp
qed

text \<open>
  Claim C1 as it is written gives the output the shape \<open>[D, H, W]\<close>, of rank 3. A debug
  build stops at \<^verbatim>\<open>assert(out_dims.nbDims == 4)\<close> and writes nothing: the first element of
  the right half of slice 0 keeps its old value 0 where \<open>right[0, 0, 0]\<close> is 2.
\<close>

theorem computeCostVolume_rank3_output_aborts_right:
  "fst (computeCostVolume debug_ok ones twos (dims_of 3 [1, 1, 4]) (dims_of 3 [2, 1, 4]) idle)
     = Inl AssertionFailed
   \<and> buf (snd (computeCostVolume debug_ok ones twos (dims_of 3 [1, 1, 4]) (dims_of 3 [2, 1, 4]) idle))
       (0 * (2 * 1 * 1 * 4) + 1 * 1 * 4 + (0 * 1 * 4 + 0 * 4 + 0)) = 0
   \<and> twos (0 * 1 * 4 + 0 * 4 + (0 - 0)) = 2"
  by (simp add: computeCostVolume_def debug_ok_def dims_of_def idle_def twos_def)

theorem computeCostVolume_left_half_witness:
  "fst (computeCostVolume release_ok ones twos (dims_of 3 [2, 3, 5]) (dims_of 4 [3, 4, 3, 5]) idle)
     = Inr cudaSuccess
   \<and> buf (snd (computeCostVolume release_ok ones twos (dims_of 3 [2, 3, 5]) (dims_of 4 [3, 4, 3, 5]) idle))
       (0 * (2 * 2 * 3 * 5) + (1 * 3 * 5 + 2 * 5 + 4))
     = ones (1 * 3 * 5 + 2 * 5 + 4)
   \<and> buf (snd (computeCostVolume release_ok ones twos (dims_of 3 [2, 3, 5]) (dims_of 4 [3, 4, 3, 5]) idle))
       (2 * (2 * 2 * 3 * 5) + (1 * 3 * 5 + 2 * 5 + 4))
     = ones (1 * 3 * 5 + 2 * 5 + 4)"
proof -
  have t: "fst (computeCostVolume release_ok ones twos (dims_of 3 [2, 3, 5]) (dims_of 4 [3, 4, 3, 5]) idle)
     = Inr cudaSuccess
   \<and> (\<forall>d<3. \<forall>c<2. \<forall>y<3. \<forall>x<5.
        buf (snd (computeCostVolume release_ok ones twos (dims_of 3 [2, 3, 5]) (dims_of 4 [3, 4, 3, 5]) idle))
          (d * (2 * 2 * 3 * 5) + (c * 3 * 5 + y * 5 + x))
        = ones (c * 3 * 5 + y * 5 + x))"
    by (rule computeCostVolume_left_half) (simp_all add: dims_of_def release_ok_def)
  from t [THEN conjunct2, rule_format, of 0 1 2 4] t [THEN conjunct2, rule_format, of 2 1 2 4]
    t [THEN conjunct1]
  show ?thesis by simp
qed

text \<open>
  Claim C2 as it is written gives the output the shape \<open>[D, H, W]\<close>, of rank 3. A debug
  build stops at \<^verbatim>\<open>assert(out_dims.nbDims == 4)\<close>: the element \<open>[1, 2, 4]\<close> of the left half
  of slice 1 keeps its old value 0 where \<open>left[1, 2, 4]\<close> is 1.
\<close>

theorem computeCostVolume_rank3_output_aborts_left:
  "fst (computeCostVolume debug_ok ones twos (dims_of 3 [2, 3, 5]) (dims_of 3 [3, 3, 5]) idle)
     = Inl AssertionFailed
   \<and> buf (snd (computeCostVolume debug_ok ones twos (dims_of 3 [2, 3, 5]) (dims_of 3 [3, 3, 5]) idle))
       (1 * (2 * 2 * 3 * 5) + (1 * 3 * 5 + 2 * 5 + 4)) = 0
   \<and> ones (1 * 3 * 5 + 2 * 5 + 4) = 1"
  by (simp add: computeCostVolume_def debug_ok_def dims_of_def idle_def ones_def)

text \<open>The theorem of the two kernels at the shape \<open>[1, 1, 4]\<close> with two disparities.\<close>

theorem cost_volume_kernels_commute_witness:
  "(\<exists>k<nat (sint (2 :: int32_t)).
      \<exists>i<unat (1 :: int32_t) * unat (1 :: int32_t) * unat (4 :: int32_t).
        (0 :: nat) = k * (2 * unat (1 :: int32_t) * unat (1 :: int32_t) * unat (4 :: int32_t)) + i)
   \<and> (\<exists>k<nat (sint (2 :: int32_t)).
      \<exists>i<unat (1 :: int32_t) * unat (1 :: int32_t) * unat (4 :: int32_t).
        (4 :: nat) = k * (2 * unat (1 :: int32_t) * unat (1 :: int32_t) * unat (4 :: int32_t))
              + unat (1 :: int32_t) * unat (1 :: int32_t) * unat (4 :: int32_t) + i)
   \<and> run_threads (costVolumeCopyPadKernel twos 1 1 4 2) (Dim3 16 16 1)
        (grid_threads (Dim3 1 1 1) (Dim3 16 16 1))
        (run_threads (costVolumeCopyKernel ones 1 1 4 2) (Dim3 16 16 1)
           (grid_threads (Dim3 1 1 1) (Dim3 16 16 1)) (buf idle))
     = run_threads (costVolumeCopyKernel ones 1 1 4 2) (Dim3 16 16 1)
        (grid_threads (Dim3 1 1 1) (Dim3 16 16 1))
        (run_threads (costVolumeCopyPadKernel twos 1 1 4 2) (Dim3 16 16 1)
           (grid_threads (Dim3 1 1 1) (Dim3 16 16 1)) (buf idle))"
proof -
  have v: "2 * unat (1 :: int32_t) * unat (1 :: int32_t) * unat (4 :: int32_t) < 2 ^ 31"
    and d: "0 \<le> sint (2 :: int32_t)" by simp_all
  note t = cost_volume_kernels_commute [OF v d, where left = ones and right = twos
      and b = "Dim3 16 16 1" and b' = "Dim3 16 16 1"
      and ts = "grid_threads (Dim3 1 1 1) (Dim3 16 16 1)"
      and ts' = "grid_threads (Dim3 1 1 1) (Dim3 16 16 1)" and dst = "buf idle"]
  have g: "unat (1 :: uint32_t) = (unat (4 :: uint32_t) + 15) div 16"
    "unat (1 :: uint32_t) = (unat (1 :: uint32_t) + 15) div 16"
    "unat (1 :: uint32_t) = unat (1 :: uint32_t)"
    "0 < unat (4 :: uint32_t)" "0 < unat (1 :: uint32_t)" "0 < unat (1 :: uint32_t)"
    "0 < nat (sint (2 :: int32_t))"
    by simp_all
  have "run_threads (costVolumeCopyKernel ones 1 1 4 2) (Dim3 16 16 1)
          (grid_threads (Dim3 1 1 1) (Dim3 16 16 1)) (buf idle) 0 \<noteq> buf idle 0"
    using costVolume_grid(1) [OF v d g, of ones "buf idle"] by (simp add: ones_def idle_def)
  moreover have "run_threads (costVolumeCopyPadKernel twos 1 1 4 2) (Dim3 16 16 1)
          (grid_threads (Dim3 1 1 1) (Dim3 16 16 1)) (buf idle) 4 \<noteq> buf idle 4"
    using costVolume_grid(2) [OF v d g, of twos "buf idle"] by (simp add: twos_def idle_def)
  ultimately show ?thesis
    using t [of 0, THEN conjunct1] t [of 4, THEN conjunct2, THEN conjunct1]
      t [of 0, THEN conjunct2, THEN conjunct2]
    by blast
qed

end
